theory Spec2Isabelle
  imports Complex_Main "HOL-Library.Signed_Division"
begin

section \<open>Counted loops\<close>

text \<open>
  Every loop of the two SparseLU files is a counted loop
  \<^verbatim>\<open>for (i = a; i < n; i++) body\<close> whose body never assigns the counter.
  \<open>for_loop a n body s\<close> runs it on the state \<open>s\<close>; \<open>for_loopE\<close> is the same loop
  for a body that may end the run (a null dereference, \<^verbatim>\<open>exit(101)\<close>): the first
  error leaves the loop. Counters and bounds are C \<^verbatim>\<open>int\<close>s; a counter starts
  at \<open>0\<close> or above and stays below its bound, and a bound of \<open>0\<close> or less runs no
  iteration, so both are natural numbers here.
\<close>

function for_loop :: "nat \<Rightarrow> nat \<Rightarrow> (nat \<Rightarrow> 's \<Rightarrow> 's) \<Rightarrow> 's \<Rightarrow> 's" where
  "for_loop i n body s = (if i < n then for_loop (Suc i) n body (body i s) else s)"
  by pat_completeness auto
termination
  by (relation "measure (\<lambda>(i, n, body, s). n - i)") auto

declare for_loop.simps [simp del]

definition bindE :: "'e + 'a \<Rightarrow> ('a \<Rightarrow> 'e + 'b) \<Rightarrow> 'e + 'b" where
  "bindE m f = (case m of Inl e \<Rightarrow> Inl e | Inr x \<Rightarrow> f x)"

function for_loopE :: "nat \<Rightarrow> nat \<Rightarrow> (nat \<Rightarrow> 's \<Rightarrow> 'e + 's) \<Rightarrow> 's \<Rightarrow> 'e + 's" where
  "for_loopE i n body s =
     (if i < n then bindE (body i s) (for_loopE (Suc i) n body) else Inr s)"
  by pat_completeness auto
termination
  by (relation "measure (\<lambda>(i, n, body, s). n - i)") auto

declare for_loopE.simps [simp del]

section \<open>Tiles and the four kernels\<close>

text \<open>
  A tile is the C \<^verbatim>\<open>float **\<close>: an array of rows, each an array of values.
  The kernels only subtract, multiply and divide tile entries, so the entries are
  a type with these three operations and a zero, and the kernels assume nothing
  of the operations: a theorem stated for every tile holds for any arithmetic put
  in their place.
  \<open>get t i j\<close> reads \<^verbatim>\<open>t[i][j]\<close> and \<open>put t i j v\<close> is the assignment
  \<^verbatim>\<open>t[i][j] = v\<close>. Every tile of a run is a block of
  \<open>allocate_clean_block\<close> for the one \<open>submatrix_size\<close> that the kernels are
  called with, so the kernels index inside the tile.
\<close>

type_synonym 'a tile = "'a list list"

definition get :: "'a tile \<Rightarrow> nat \<Rightarrow> nat \<Rightarrow> 'a" where
  "get t i j = t ! i ! j"

definition put :: "'a tile \<Rightarrow> nat \<Rightarrow> nat \<Rightarrow> 'a \<Rightarrow> 'a tile" where
  "put t i j v = t[i := (t ! i)[j := v]]"

definition lu0 :: "('a :: {minus,times,inverse}) tile \<Rightarrow> nat \<Rightarrow> 'a tile" where
  "lu0 diag submatrix_size =
     for_loop 0 submatrix_size (\<lambda>k.
       for_loop (k + 1) submatrix_size (\<lambda>i diag.
         let diag = put diag i k (get diag i k / get diag k k) in
         for_loop (k + 1) submatrix_size (\<lambda>j diag.
           put diag i j (get diag i j - get diag i k * get diag k j)) diag)) diag"

definition bdiv :: "('a :: {minus,times,inverse}) tile \<Rightarrow> 'a tile \<Rightarrow> nat \<Rightarrow> 'a tile" where
  "bdiv diag row submatrix_size =
     for_loop 0 submatrix_size (\<lambda>i.
       for_loop 0 submatrix_size (\<lambda>k row.
         let row = put row i k (get row i k / get diag k k) in
         for_loop (k + 1) submatrix_size (\<lambda>j row.
           put row i j (get row i j - get row i k * get diag k j)) row)) row"

definition bmod :: "('a :: {minus,times}) tile \<Rightarrow> 'a tile \<Rightarrow> 'a tile \<Rightarrow> nat \<Rightarrow> 'a tile" where
  "bmod row col inner submatrix_size =
     for_loop 0 submatrix_size (\<lambda>i.
       for_loop 0 submatrix_size (\<lambda>j.
         for_loop 0 submatrix_size (\<lambda>k inner.
           put inner i j (get inner i j - get row i k * get col k j)))) inner"

definition fwd :: "('a :: {minus,times}) tile \<Rightarrow> 'a tile \<Rightarrow> nat \<Rightarrow> 'a tile" where
  "fwd diag col submatrix_size =
     for_loop 0 submatrix_size (\<lambda>j.
       for_loop 0 submatrix_size (\<lambda>k.
         for_loop (k + 1) submatrix_size (\<lambda>i col.
           put col i j (get col i j - get diag i k * get col k j)))) col"

text \<open>
  The specification's wording of \<open>lu0\<close>, kept apart from the loop above: for \<open>k\<close> in
  \<open>[0,b)\<close>, for each \<open>i > k\<close>, first \<open>diag[i][k]\<close> becomes \<open>diag[i][k] / diag[k][k]\<close>,
  then for each \<open>j > k\<close>, \<open>diag[i][j]\<close> becomes \<open>diag[i][j] - diag[i][k] * diag[k][j]\<close>.
\<close>

definition lu0_row_update :: "nat \<Rightarrow> nat \<Rightarrow> nat \<Rightarrow> ('a :: {minus,times,inverse}) tile \<Rightarrow> 'a tile" where
  "lu0_row_update b k i d =
     fold (\<lambda>j d. put d i j (get d i j - get d i k * get d k j)) [Suc k..<b]
       (put d i k (get d i k / get d k k))"

definition lu0_spec :: "('a :: {minus,times,inverse}) tile \<Rightarrow> nat \<Rightarrow> 'a tile" where
  "lu0_spec diag b = fold (\<lambda>k. fold (lu0_row_update b k) [Suc k..<b]) [0..<b] diag"

section \<open>The block matrix, the process state and its errors\<close>

text \<open>
  \<^verbatim>\<open>BENCH\<close> is a table of tile pointers: slot \<open>(i, j)\<close> is \<open>None\<close> for
  \<^verbatim>\<open>NULL\<close> and \<open>Some t\<close> when it points to the tile \<open>t\<close>. Every tile is pointed to
  by one slot only (each is a fresh block of \<open>allocate_clean_block\<close>), so a kernel
  writing through one slot changes no other. Only the slots below \<open>matrix_size\<close>
  are ever read or written.

  Two things end a run: dereferencing a null tile pointer, and \<^verbatim>\<open>exit(101)\<close>
  after a failed \<^verbatim>\<open>malloc\<close>, with the line printed to \<^verbatim>\<open>stderr\<close>.
  Whether a \<^verbatim>\<open>malloc\<close> succeeds is not decided by the program: \<open>ok c\<close> tells
  whether the call number \<open>c\<close> of the run succeeds, and \<open>mallocs\<close> counts the calls
  made so far.

  The state also records, in order, which tasks the run creates and which slots
  it allocates, and who allocates: the thread that creates the tasks, or the body
  of a task. \<open>Submit kd kk ii jj\<close> is the creation, in pass \<open>kk\<close>, of the task of
  kind \<open>kd\<close> that writes the tile of slot \<open>(ii, jj)\<close>. A task is run where it is
  created. The tests that decide which tasks are created read slots that no
  unfinished task assigns, so the trace is the one of a parallel run: in
  \<^verbatim>\<open>sparselu-task-dep.c\<close> no task assigns a slot, and in
  \<^verbatim>\<open>sparselu-task.c\<close> a pass tests row and column \<open>kk\<close> only, its tasks fill
  slots beyond them, and a taskwait ends it.
\<close>

datatype error = NullDeref | Exit int string

datatype kind = LU0 | FWD | BDIV | BMOD

datatype actor = Issuing_thread | Task_body

datatype event = Submit kind nat nat nat | Alloc actor nat nat

type_synonym 'a grid = "nat \<Rightarrow> nat \<Rightarrow> 'a tile option"

record 'a state =
  grid :: "'a grid"
  mallocs :: nat
  trace :: "event list"

definition set_slot :: "'a grid \<Rightarrow> nat \<Rightarrow> nat \<Rightarrow> 'a tile option \<Rightarrow> 'a grid" where
  "set_slot g i j p = g(i := (g i)(j := p))"

definition submit :: "kind \<Rightarrow> nat \<Rightarrow> nat \<Rightarrow> nat \<Rightarrow> 'a state \<Rightarrow> 'a state" where
  "submit kd kk ii jj s = s\<lparr>trace := trace s @ [Submit kd kk ii jj]\<rparr>"

definition block_msg :: string where
  "block_msg = ''Error: malloc failed in allocate_clean_block'' @ [CHR 0x0A]"

definition bench_msg :: string where
  "bench_msg = ''Error: malloc failed for benchmark matrix'' @ [CHR 0x0A]"

text \<open>
  \<open>allocate_clean_block\<close>: one \<^verbatim>\<open>malloc\<close> for the row pointers, then for each row
  one \<^verbatim>\<open>malloc\<close> and the loop that stores \<open>0.0\<close> in its entries. The block is
  built row by row and entry by entry, so that no uninitialised memory is modelled.
  It returns the block and the new count of \<^verbatim>\<open>malloc\<close> calls.
\<close>

definition allocate_clean_block ::
  "(nat \<Rightarrow> bool) \<Rightarrow> nat \<Rightarrow> nat \<Rightarrow> error + (('a :: zero) tile \<times> nat)" where
  "allocate_clean_block ok submatrix_size c =
     (if \<not> ok c then Inl (Exit 101 block_msg)
      else for_loopE 0 submatrix_size (\<lambda>i (block, c).
             if \<not> ok c then Inl (Exit 101 block_msg)
             else Inr (block @ [for_loop 0 submatrix_size (\<lambda>j row. row @ [0]) []], Suc c))
           ([], Suc c))"

text \<open>
  The fill-in statement of the factorizations,
  \<^verbatim>\<open>BENCH[ii][jj] = allocate_clean_block(submatrix_size)\<close>, recorded with its actor.
\<close>

definition fill_in ::
  "(nat \<Rightarrow> bool) \<Rightarrow> nat \<Rightarrow> actor \<Rightarrow> nat \<Rightarrow> nat \<Rightarrow> ('a :: zero) state \<Rightarrow> error + 'a state" where
  "fill_in ok submatrix_size who ii jj s =
     bindE (allocate_clean_block ok submatrix_size (mallocs s)) (\<lambda>(block, c).
       Inr (s\<lparr>grid := set_slot (grid s) ii jj (Some block), mallocs := c,
              trace := trace s @ [Alloc who ii jj]\<rparr>))"

subsection \<open>Kernel calls on slots\<close>

text \<open>
  A kernel is called on the pointers found in the slots. Called on a null pointer
  it dereferences it in the first run of its innermost statement: \<open>lu0\<close> and
  \<open>fwd\<close> reach that statement when \<open>2 \<le> submatrix_size\<close> (their inner counter
  starts at \<open>k + 1\<close>), \<open>bdiv\<close> and \<open>bmod\<close> when \<open>1 \<le> submatrix_size\<close>. With a
  smaller size the kernel touches nothing.
\<close>

definition lu0_call :: "nat \<Rightarrow> nat \<Rightarrow> ('a :: {minus,times,inverse}) state \<Rightarrow> error + 'a state" where
  "lu0_call b kk s =
     (case grid s kk kk of
        Some diag \<Rightarrow> Inr (s\<lparr>grid := set_slot (grid s) kk kk (Some (lu0 diag b))\<rparr>)
      | None \<Rightarrow> if 2 \<le> b then Inl NullDeref else Inr s)"

definition fwd_call ::
  "nat \<Rightarrow> nat \<Rightarrow> nat \<Rightarrow> ('a :: {minus,times,inverse}) state \<Rightarrow> error + 'a state" where
  "fwd_call b kk jj s =
     (case (grid s kk kk, grid s kk jj) of
        (Some diag, Some col) \<Rightarrow>
          Inr (s\<lparr>grid := set_slot (grid s) kk jj (Some (fwd diag col b))\<rparr>)
      | _ \<Rightarrow> if 2 \<le> b then Inl NullDeref else Inr s)"

definition bdiv_call ::
  "nat \<Rightarrow> nat \<Rightarrow> nat \<Rightarrow> ('a :: {minus,times,inverse}) state \<Rightarrow> error + 'a state" where
  "bdiv_call b kk ii s =
     (case (grid s kk kk, grid s ii kk) of
        (Some diag, Some row) \<Rightarrow>
          Inr (s\<lparr>grid := set_slot (grid s) ii kk (Some (bdiv diag row b))\<rparr>)
      | _ \<Rightarrow> if 1 \<le> b then Inl NullDeref else Inr s)"

definition bmod_call ::
  "nat \<Rightarrow> nat \<Rightarrow> nat \<Rightarrow> nat \<Rightarrow> ('a :: {minus,times,inverse}) state \<Rightarrow> error + 'a state" where
  "bmod_call b kk ii jj s =
     (case (grid s ii kk, grid s kk jj, grid s ii jj) of
        (Some row, Some col, Some inner) \<Rightarrow>
          Inr (s\<lparr>grid := set_slot (grid s) ii jj (Some (bmod row col inner b))\<rparr>)
      | _ \<Rightarrow> if 1 \<le> b then Inl NullDeref else Inr s)"

section \<open>The generator\<close>

text \<open>
  \<open>null_entry\<close> is the chain of tests of \<open>genmat\<close> on the slot \<open>(ii, jj)\<close>,
  in the order of the source: each test may overwrite the flag.
\<close>

definition null_entry :: "nat \<Rightarrow> nat \<Rightarrow> bool" where
  "null_entry ii jj =
     (let null_entry = False;
          null_entry = (if ii < jj \<and> ii mod 3 \<noteq> 0 then True else null_entry);
          null_entry = (if ii > jj \<and> jj mod 3 \<noteq> 0 then True else null_entry);
          null_entry = (if ii mod 2 = 1 then True else null_entry);
          null_entry = (if jj mod 2 = 1 then True else null_entry);
          null_entry = (if ii = jj then False else null_entry);
          null_entry = (if int ii = int jj - 1 then False else null_entry);
          null_entry = (if int ii - 1 = int jj then False else null_entry)
      in null_entry)"

text \<open>
  \<^verbatim>\<open>init_val = (3125 * init_val) % 65536\<close> on C integers (\<open>%\<close> truncates), and
  the value stored, \<^verbatim>\<open>(float)((init_val - 32768.0) / 16384.0)\<close>. For
  \<open>0 \<le> init_val < 65536\<close> the product stays below \<open>2^31\<close> and the quotient is a
  multiple of \<open>2^-14\<close> of magnitude at most 2, which binary32 holds exactly: it
  is modelled as this rational number.
\<close>

definition next_init_val :: "int \<Rightarrow> int" where
  "next_init_val init_val = (3125 * init_val) smod 65536"

definition tile_value :: "int \<Rightarrow> rat" where
  "tile_value init_val = (of_int init_val - 32768) / 16384"

text \<open>
  The block of \<open>genmat\<close> under \<^verbatim>\<open>#pragma omp task shared(M)\<close>, as a function of
  the variables it reads: it stores the slot and returns, with the state, the
  value its \<open>init_val\<close> has at the end.
\<close>

definition genmat_task ::
  "(nat \<Rightarrow> bool) \<Rightarrow> nat \<Rightarrow> nat \<Rightarrow> nat \<Rightarrow> rat state \<times> int \<Rightarrow> error + rat state \<times> int" where
  "genmat_task ok submatrix_size ii jj = (\<lambda>(s, init_val).
     if \<not> null_entry ii jj
     then bindE (allocate_clean_block ok submatrix_size (mallocs s)) (\<lambda>(block, c).
            let (block, init_val) =
                  for_loop 0 submatrix_size (\<lambda>i.
                    for_loop 0 submatrix_size (\<lambda>j (block, init_val).
                      let init_val = next_init_val init_val
                      in (put block i j (tile_value init_val), init_val)))
                  (block, init_val)
            in Inr (s\<lparr>grid := set_slot (grid s) ii jj (Some block), mallocs := c\<rparr>, init_val))
     else Inr (s\<lparr>grid := set_slot (grid s) ii jj None\<rparr>, init_val))"

text \<open>
  The two loops of \<open>genmat\<close>. \<open>init_val\<close> is a local variable of \<open>genmat\<close>, and the
  task construct names only \<open>M\<close> as shared. In a task construct without a
  \<^verbatim>\<open>default\<close> clause, a variable that is not shared in the enclosing context is
  firstprivate (OpenMP 4.5, 2.15.1.1), and a local variable of a function called
  in a parallel region is private there (2.15.1.2): each task starts from a copy of
  the creating thread's \<open>init_val\<close> and its assignments are to the copy. With
  \<open>shared_init_val = False\<close> the loops are those of the program compiled with
  OpenMP: the copy's last value is dropped. With \<open>shared_init_val = True\<close> they are
  the loops read without the pragma, where the block assigns the one variable.
  The counters \<open>ii\<close> and \<open>jj\<close> are copied too, and the block does not assign them.
\<close>

definition genmat_loops ::
  "bool \<Rightarrow> (nat \<Rightarrow> bool) \<Rightarrow> nat \<Rightarrow> nat \<Rightarrow> rat state \<Rightarrow> error + rat state" where
  "genmat_loops shared_init_val ok matrix_size submatrix_size s =
     bindE (for_loopE 0 matrix_size (\<lambda>ii.
              for_loopE 0 matrix_size (\<lambda>jj (s, init_val).
                bindE (genmat_task ok submatrix_size ii jj (s, init_val))
                  (\<lambda>(s, task_init_val).
                     Inr (s, if shared_init_val then task_init_val else init_val))))
            (s, 1325))
       (\<lambda>(s, init_val). Inr s)"

definition genmat :: "(nat \<Rightarrow> bool) \<Rightarrow> nat \<Rightarrow> nat \<Rightarrow> rat state \<Rightarrow> error + rat state" where
  "genmat = genmat_loops False"

definition genmat_serial :: "(nat \<Rightarrow> bool) \<Rightarrow> nat \<Rightarrow> nat \<Rightarrow> rat state \<Rightarrow> error + rat state" where
  "genmat_serial = genmat_loops True"

text \<open>
  \<open>sparselu_init\<close>: one \<^verbatim>\<open>malloc\<close> for the table of rows, one per row, then
  \<open>genmat\<close>, which assigns every slot below \<open>matrix_size\<close>. \<open>c\<close> is the number of
  \<^verbatim>\<open>malloc\<close> calls made before.
\<close>

definition sparselu_init :: "(nat \<Rightarrow> bool) \<Rightarrow> nat \<Rightarrow> nat \<Rightarrow> nat \<Rightarrow> error + rat state" where
  "sparselu_init ok matrix_size submatrix_size c =
     (if \<not> ok c then Inl (Exit 101 bench_msg)
      else bindE (for_loopE 0 matrix_size (\<lambda>i c.
                    if \<not> ok c then Inl (Exit 101 bench_msg) else Inr (Suc c)) (Suc c))
             (\<lambda>c. genmat ok matrix_size submatrix_size
                     \<lparr>grid = (\<lambda>i j. None), mallocs = c, trace = []\<rparr>))"

section \<open>The factorizations\<close>

subsection \<open>sparselu-task-dep.c: tasks with dependences\<close>

text \<open>
  One pass of the \<open>kk\<close> loop of \<open>sparselu_par_call\<close>. The thread creates the
  \<open>lu0\<close> task without looking at the slot, one \<open>fwd\<close> task per non-null slot of row
  \<open>kk\<close>, one \<open>bdiv\<close> task per non-null slot of column \<open>kk\<close>, and for each pair of
  them it fills the target slot when it is null, itself, before it creates the
  \<open>bmod\<close> task.
\<close>

definition sparselu_par_call_pass ::
  "(nat \<Rightarrow> bool) \<Rightarrow> nat \<Rightarrow> nat \<Rightarrow> nat \<Rightarrow> ('a :: {zero,minus,times,inverse}) state \<Rightarrow> error + 'a state" where
  "sparselu_par_call_pass ok matrix_size submatrix_size kk s =
     bindE (lu0_call submatrix_size kk (submit LU0 kk kk kk s)) (\<lambda>s.
     bindE (for_loopE (kk + 1) matrix_size (\<lambda>jj s.
              if grid s kk jj \<noteq> None
              then fwd_call submatrix_size kk jj (submit FWD kk kk jj s)
              else Inr s) s) (\<lambda>s.
     bindE (for_loopE (kk + 1) matrix_size (\<lambda>ii s.
              if grid s ii kk \<noteq> None
              then bdiv_call submatrix_size kk ii (submit BDIV kk ii kk s)
              else Inr s) s) (\<lambda>s.
     for_loopE (kk + 1) matrix_size (\<lambda>ii s.
       if grid s ii kk \<noteq> None
       then for_loopE (kk + 1) matrix_size (\<lambda>jj s.
              if grid s kk jj \<noteq> None
              then bindE (if grid s ii jj = None
                          then fill_in ok submatrix_size Issuing_thread ii jj s
                          else Inr s) (\<lambda>s.
                   bmod_call submatrix_size kk ii jj (submit BMOD kk ii jj s))
              else Inr s) s
       else Inr s) s)))"

definition sparselu_par_call ::
  "(nat \<Rightarrow> bool) \<Rightarrow> nat \<Rightarrow> nat \<Rightarrow> ('a :: {zero,minus,times,inverse}) state \<Rightarrow> error + 'a state" where
  "sparselu_par_call ok matrix_size submatrix_size s =
     for_loopE 0 matrix_size (sparselu_par_call_pass ok matrix_size submatrix_size) s"

subsection \<open>sparselu-task.c: tasks between taskwaits, and the sequential reference\<close>

text \<open>
  In this file's \<open>sparselu_par_call\<close> the thread calls \<open>lu0\<close> itself, and the
  body of a \<open>bmod\<close> task tests the target slot and fills it.
  \<open>sparselu_seq_call\<close> creates no task and tests the diagonal slot before
  \<open>lu0\<close>, \<open>fwd\<close> and \<open>bdiv\<close>; its allocations are recorded for the calling
  thread.
\<close>

definition sparselu_par_call_task_pass ::
  "(nat \<Rightarrow> bool) \<Rightarrow> nat \<Rightarrow> nat \<Rightarrow> nat \<Rightarrow> ('a :: {zero,minus,times,inverse}) state \<Rightarrow> error + 'a state" where
  "sparselu_par_call_task_pass ok matrix_size submatrix_size kk s =
     bindE (lu0_call submatrix_size kk s) (\<lambda>s.
     bindE (for_loopE (kk + 1) matrix_size (\<lambda>jj s.
              if grid s kk jj \<noteq> None
              then fwd_call submatrix_size kk jj (submit FWD kk kk jj s)
              else Inr s) s) (\<lambda>s.
     bindE (for_loopE (kk + 1) matrix_size (\<lambda>ii s.
              if grid s ii kk \<noteq> None
              then bdiv_call submatrix_size kk ii (submit BDIV kk ii kk s)
              else Inr s) s) (\<lambda>s.
     for_loopE (kk + 1) matrix_size (\<lambda>ii s.
       if grid s ii kk \<noteq> None
       then for_loopE (kk + 1) matrix_size (\<lambda>jj s.
              if grid s kk jj \<noteq> None
              then (let s = submit BMOD kk ii jj s in
                   bindE (if grid s ii jj = None
                          then fill_in ok submatrix_size Task_body ii jj s
                          else Inr s)
                     (bmod_call submatrix_size kk ii jj))
              else Inr s) s
       else Inr s) s)))"

definition sparselu_par_call_task ::
  "(nat \<Rightarrow> bool) \<Rightarrow> nat \<Rightarrow> nat \<Rightarrow> ('a :: {zero,minus,times,inverse}) state \<Rightarrow> error + 'a state" where
  "sparselu_par_call_task ok matrix_size submatrix_size s =
     for_loopE 0 matrix_size (sparselu_par_call_task_pass ok matrix_size submatrix_size) s"

definition sparselu_seq_call_pass ::
  "(nat \<Rightarrow> bool) \<Rightarrow> nat \<Rightarrow> nat \<Rightarrow> nat \<Rightarrow> ('a :: {zero,minus,times,inverse}) state \<Rightarrow> error + 'a state" where
  "sparselu_seq_call_pass ok matrix_size submatrix_size kk s =
     bindE (if grid s kk kk \<noteq> None then lu0_call submatrix_size kk s else Inr s) (\<lambda>s.
     bindE (for_loopE (kk + 1) matrix_size (\<lambda>jj s.
              if grid s kk jj \<noteq> None \<and> grid s kk kk \<noteq> None
              then fwd_call submatrix_size kk jj s
              else Inr s) s) (\<lambda>s.
     bindE (for_loopE (kk + 1) matrix_size (\<lambda>ii s.
              if grid s ii kk \<noteq> None \<and> grid s kk kk \<noteq> None
              then bdiv_call submatrix_size kk ii s
              else Inr s) s) (\<lambda>s.
     for_loopE (kk + 1) matrix_size (\<lambda>ii s.
       if grid s ii kk \<noteq> None
       then for_loopE (kk + 1) matrix_size (\<lambda>jj s.
              if grid s kk jj \<noteq> None
              then bindE (if grid s ii jj = None
                          then fill_in ok submatrix_size Issuing_thread ii jj s
                          else Inr s)
                     (bmod_call submatrix_size kk ii jj)
              else Inr s) s
       else Inr s) s)))"

definition sparselu_seq_call ::
  "(nat \<Rightarrow> bool) \<Rightarrow> nat \<Rightarrow> nat \<Rightarrow> ('a :: {zero,minus,times,inverse}) state \<Rightarrow> error + 'a state" where
  "sparselu_seq_call ok matrix_size submatrix_size s =
     for_loopE 0 matrix_size (sparselu_seq_call_pass ok matrix_size submatrix_size) s"


section \<open>Observations on a run\<close>

text \<open>The slots that hold a tile.\<close>

definition slots :: "'a state \<Rightarrow> (nat \<times> nat) set" where
  "slots s = {(i, j). grid s i j \<noteq> None}"

text \<open>
  Two states hold the same matrix: the same slots with the same tiles, the same
  count of \<^verbatim>\<open>malloc\<close> calls, and a tile in every diagonal slot below \<open>n\<close>.
  Their traces may differ.
\<close>

definition same_matrix :: "nat \<Rightarrow> 'a state \<Rightarrow> 'a state \<Rightarrow> bool" where
  "same_matrix n s t \<longleftrightarrow>
     grid s = grid t \<and> mallocs s = mallocs t \<and> (\<forall>i<n. grid s i i \<noteq> None)"

text \<open>
  Counting in a trace: the tasks of one kind created in pass \<open>k\<close>, and the
  allocations of one slot.
\<close>

fun is_task :: "kind \<Rightarrow> nat \<Rightarrow> event \<Rightarrow> bool" where
  "is_task kd k (Submit kd' k' i j) = (kd' = kd \<and> k' = k)"
| "is_task kd k (Alloc who i j) = False"

definition task_count :: "kind \<Rightarrow> nat \<Rightarrow> event list \<Rightarrow> nat" where
  "task_count kd k evs = length (filter (is_task kd k) evs)"

fun is_alloc :: "nat \<Rightarrow> nat \<Rightarrow> event \<Rightarrow> bool" where
  "is_alloc i j (Alloc who i' j') = (i' = i \<and> j' = j)"
| "is_alloc i j (Submit kd k i' j') = False"

definition alloc_count :: "nat \<Rightarrow> nat \<Rightarrow> event list \<Rightarrow> nat" where
  "alloc_count i j evs = length (filter (is_alloc i j) evs)"

fun allocated :: "event list \<Rightarrow> (nat \<times> nat) set" where
  "allocated [] = {}"
| "allocated (Alloc who i j # evs) = insert (i, j) (allocated evs)"
| "allocated (Submit kd k i j # evs) = allocated evs"

text \<open>
  The held slots of row \<open>k\<close> and of column \<open>k\<close>, and the number of tasks of each
  kind that the formula of the specification gives for pass \<open>k\<close> from the state
  at its start.
\<close>

definition cross :: "nat \<Rightarrow> 'a state \<Rightarrow> (nat \<times> nat) set" where
  "cross k s = {(i, j). (i = k \<or> j = k) \<and> grid s i j \<noteq> None}"

definition pass_tasks :: "nat \<Rightarrow> nat \<Rightarrow> 'a state \<Rightarrow> kind \<Rightarrow> nat" where
  "pass_tasks n k s kd =
     (case kd of
        LU0 \<Rightarrow> 1
      | FWD \<Rightarrow> card {j. k < j \<and> j < n \<and> grid s k j \<noteq> None}
      | BDIV \<Rightarrow> card {i. k < i \<and> i < n \<and> grid s i k \<noteq> None}
      | BMOD \<Rightarrow> card {(i, j). k < i \<and> i < n \<and> k < j \<and> j < n
                          \<and> grid s i k \<noteq> None \<and> grid s k j \<noteq> None})"

text \<open>
  A trace is orderly from the set \<open>S\<close> of slots held at its start when, read in
  order, every allocation is made by the thread that creates the tasks, for a slot
  that holds no tile at that moment, and every \<open>bmod\<close> task is created when its
  target slot holds a tile.
\<close>

fun orderly :: "(nat \<times> nat) set \<Rightarrow> event list \<Rightarrow> bool" where
  "orderly S [] = True"
| "orderly S (Alloc who i j # evs) =
     (who = Issuing_thread \<and> (i, j) \<notin> S \<and> orderly (insert (i, j) S) evs)"
| "orderly S (Submit kd k i j # evs) = ((kd = BMOD \<longrightarrow> (i, j) \<in> S) \<and> orderly S evs)"

definition follows :: "'a state \<Rightarrow> 'a state \<Rightarrow> bool" where
  "follows s t \<longleftrightarrow>
     (\<exists>evs. trace t = trace s @ evs \<and> slots t = slots s \<union> allocated evs
        \<and> orderly (slots s) evs)"

text \<open>
  In the trace of \<^verbatim>\<open>sparselu-task.c\<close> an allocation stands right after the
  creation of the \<open>bmod\<close> task of the same slot, and is made by its body.
\<close>

fun in_bmod_body :: "event list \<Rightarrow> bool" where
  "in_bmod_body [] = True"
| "in_bmod_body (Submit BMOD k i j # Alloc who i' j' # evs) =
     (who = Task_body \<and> i' = i \<and> j' = j \<and> in_bmod_body evs)"
| "in_bmod_body (Alloc who i j # evs) = False"
| "in_bmod_body (Submit kd k i j # evs) = in_bmod_body evs"

definition follows_task :: "'a state \<Rightarrow> 'a state \<Rightarrow> bool" where
  "follows_task s t \<longleftrightarrow> (\<exists>evs. trace t = trace s @ evs \<and> in_bmod_body evs)"

text \<open>
  A \<open>3 \<times> 3\<close> matrix of \<open>1 \<times> 1\<close> tiles: the diagonal, \<open>(1, 0)\<close> and \<open>(0, 2)\<close>.
  Pass 0 fills slot \<open>(1, 2)\<close>.
\<close>

definition fill_example :: "rat state" where
  "fill_example =
     \<lparr>grid = (\<lambda>i j. if i = j then Some [[2 + of_nat i]]
                     else if i = 1 \<and> j = 0 then Some [[4]]
                     else if i = 0 \<and> j = 2 then Some [[6]] else None),
      mallocs = 0, trace = []\<rparr>"

text \<open>
  What the specification says of the values, kept apart from the loops of
  \<open>genmat\<close>: \<open>tile_from b v\<close> is the \<open>b \<times> b\<close> tile whose entries, in row-major
  order, are the next \<open>b * b\<close> draws of the recurrence after the value \<open>v\<close>, and
  \<open>tiles_before n i j\<close> is the number of slots that hold a tile before slot
  \<open>(i, j)\<close> in row-major order. \<open>square b t\<close> says that \<open>t\<close> has \<open>b\<close> rows of \<open>b\<close>
  entries.
\<close>

definition square :: "nat \<Rightarrow> 'a tile \<Rightarrow> bool" where
  "square b t \<longleftrightarrow> length t = b \<and> (\<forall>r<b. length (t ! r) = b)"

definition tile_from :: "nat \<Rightarrow> int \<Rightarrow> rat tile" where
  "tile_from b v =
     map (\<lambda>i. map (\<lambda>j. tile_value ((next_init_val ^^ (i * b + j + 1)) v)) [0..<b]) [0..<b]"

definition row_tiles :: "nat \<Rightarrow> nat \<Rightarrow> nat" where
  "row_tiles i j = length (filter (\<lambda>j'. \<not> null_entry i j') [0..<j])"

definition tiles_before :: "nat \<Rightarrow> nat \<Rightarrow> nat \<Rightarrow> nat" where
  "tiles_before n i j = (\<Sum>i' = 0..<i. row_tiles i' n) + row_tiles i j"

text \<open>The tasks created in pass \<open>k\<close>, of any kind.\<close>

fun in_pass :: "nat \<Rightarrow> event \<Rightarrow> bool" where
  "in_pass k (Submit kd k' i j) = (k' = k)"
| "in_pass k (Alloc who i j) = False"

definition pass_count :: "nat \<Rightarrow> event list \<Rightarrow> nat" where
  "pass_count k evs = length (filter (in_pass k) evs)"

section \<open>Inputs used as examples\<close>

text \<open>
  A matrix of one \<open>2 \<times> 2\<close> tile, and a matrix of size one whose only slot is null.
\<close>

definition one_tile :: "rat state" where
  "one_tile = \<lparr>grid = (\<lambda>i j. if i = 0 \<and> j = 0 then Some [[2, 1], [4, 5]] else None),
               mallocs = 0, trace = []\<rparr>"

definition no_tile :: "rat state" where
  "no_tile = \<lparr>grid = (\<lambda>i j. None), mallocs = 0, trace = []\<rparr>"

section \<open>Loops as folds over the index range\<close>

lemma for_loop_fold: "for_loop a n body s = fold body [a..<n] s"
proof (induction a n body s rule: for_loop.induct)
  case (1 i n body s)
  show ?case
  proof (cases "i < n")
    case True
    then show ?thesis
      using 1 by (simp add: for_loop.simps [of i] upt_conv_Cons)
  next
    case False
    then show ?thesis
      by (simp add: for_loop.simps [of i])
  qed
qed

section \<open>Rules for loops that may fail\<close>

lemma bindE_Inl [simp]: "bindE (Inl e) f = Inl e"
  by (simp add: bindE_def)

lemma bindE_Inr [simp]: "bindE (Inr x) f = f x"
  by (simp add: bindE_def)

lemma bindE_Inr_iff: "bindE m f = Inr y \<longleftrightarrow> (\<exists>x. m = Inr x \<and> f x = Inr y)"
  by (cases m) simp_all

lemma bindE_Inl_iff: "bindE m f = Inl e \<longleftrightarrow> m = Inl e \<or> (\<exists>x. m = Inr x \<and> f x = Inl e)"
  by (cases m) simp_all

lemma for_loopE_empty: "n \<le> a \<Longrightarrow> for_loopE a n f s = Inr s"
  by (simp add: for_loopE.simps [of a])

lemma for_loopE_step: "a < n \<Longrightarrow> for_loopE a n f s = bindE (f a s) (for_loopE (Suc a) n f)"
  by (simp add: for_loopE.simps [of a])

lemma bindE_cases:
  assumes "case m of Inl e \<Rightarrow> E e | Inr x \<Rightarrow> P x"
    and "\<And>x. P x \<Longrightarrow> case f x of Inl e \<Rightarrow> E e | Inr y \<Rightarrow> Q y"
  shows "case bindE m f of Inl e \<Rightarrow> E e | Inr y \<Rightarrow> Q y"
  using assms by (cases m) simp_all

text \<open>
  The invariant rule: \<open>J i\<close> holds of the state before the iteration \<open>i\<close>, every
  error the body may raise satisfies \<open>E\<close>.
\<close>

lemma for_loopE_rule_from:
  assumes step: "\<And>i t. a \<le> i \<Longrightarrow> i < n \<Longrightarrow> J i t \<Longrightarrow>
                   (case f i t of Inl e \<Rightarrow> E e | Inr t' \<Rightarrow> J (Suc i) t')"
  shows "a \<le> i \<Longrightarrow> i \<le> n \<Longrightarrow> J i s \<Longrightarrow>
         (case for_loopE i n f s of Inl e \<Rightarrow> E e | Inr s' \<Rightarrow> J n s')"
proof (induction "n - i" arbitrary: i s)
  case 0
  then have "i = n" by simp
  with 0 show ?case by (simp add: for_loopE_empty)
next
  case (Suc d)
  then have lt: "i < n" by simp
  show ?case
  proof (cases "f i s")
    case (Inl e)
    with step [OF Suc.prems(1) lt Suc.prems(3)] show ?thesis
      by (simp add: for_loopE_step [OF lt])
  next
    case (Inr t)
    with step [OF Suc.prems(1) lt Suc.prems(3)] have J: "J (Suc i) t" by simp
    have "case for_loopE (Suc i) n f t of Inl e \<Rightarrow> E e | Inr s' \<Rightarrow> J n s'"
      using Suc.hyps(2) Suc.prems(1) lt J by (intro Suc.hyps(1)) simp_all
    with Inr show ?thesis by (simp add: for_loopE_step [OF lt])
  qed
qed

lemma for_loopE_rule:
  assumes "a \<le> n" and "J a s"
    and "\<And>i t. a \<le> i \<Longrightarrow> i < n \<Longrightarrow> J i t \<Longrightarrow>
           (case f i t of Inl e \<Rightarrow> E e | Inr t' \<Rightarrow> J (Suc i) t')"
  shows "case for_loopE a n f s of Inl e \<Rightarrow> E e | Inr s' \<Rightarrow> J n s'"
  using for_loopE_rule_from [where a = a and n = n and J = J and f = f and E = E and i = a and s = s] assms
  by simp

lemma for_loopE_Inr_rule:
  assumes run: "for_loopE a n f s = Inr s'" and "a \<le> n" and "J a s"
    and step: "\<And>i t t'. a \<le> i \<Longrightarrow> i < n \<Longrightarrow> J i t \<Longrightarrow> f i t = Inr t' \<Longrightarrow> J (Suc i) t'"
  shows "J n s'"
proof -
  have "case for_loopE a n f s of Inl e \<Rightarrow> True | Inr s' \<Rightarrow> J n s'"
    using assms(2,3) by (rule for_loopE_rule) (auto split: sum.splits intro: step)
  with run show ?thesis by simp
qed

lemma for_loopE_split:
  "a \<le> m \<Longrightarrow> m \<le> n \<Longrightarrow> for_loopE a n f s = bindE (for_loopE a m f s) (for_loopE m n f)"
proof (induction "m - a" arbitrary: a s)
  case 0
  then show ?case by (simp add: for_loopE_empty)
next
  case (Suc d)
  then have lt: "a < m" "a < n" by simp_all
  have "for_loopE (Suc a) n f t = bindE (for_loopE (Suc a) m f t) (for_loopE m n f)" for t
    using Suc.hyps(2) Suc.prems lt by (intro Suc.hyps(1)) simp_all
  then show ?case
    by (cases "f a s") (simp_all add: for_loopE_step lt)
qed

text \<open>Two loops whose bodies keep a relation between their states.\<close>

lemma for_loopE_rel_from:
  assumes step: "\<And>i s t. a \<le> i \<Longrightarrow> i < n \<Longrightarrow> R s t \<Longrightarrow> rel_sum (=) R (f i s) (g i t)"
  shows "a \<le> i \<Longrightarrow> R s t \<Longrightarrow> rel_sum (=) R (for_loopE i n f s) (for_loopE i n g t)"
proof (induction "n - i" arbitrary: i s t)
  case 0
  then show ?case by (simp add: for_loopE_empty)
next
  case (Suc d)
  then have lt: "i < n" by simp
  have body: "rel_sum (=) R (f i s) (g i t)"
    using Suc.prems lt by (intro step)
  have rest: "rel_sum (=) R (for_loopE (Suc i) n f s') (for_loopE (Suc i) n g t')"
    if "R s' t'" for s' t'
    using Suc.hyps(2) Suc.prems(1) that by (intro Suc.hyps(1)) simp_all
  from body show ?case
    by (cases "f i s"; cases "g i t") (simp_all add: for_loopE_step lt rest)
qed

lemma for_loopE_rel:
  assumes "R s t"
    and "\<And>i s t. a \<le> i \<Longrightarrow> i < n \<Longrightarrow> R s t \<Longrightarrow> rel_sum (=) R (f i s) (g i t)"
  shows "rel_sum (=) R (for_loopE a n f s) (for_loopE a n g t)"
  using for_loopE_rel_from [where a = a and n = n and R = R and f = f and g = g and i = a and s = s and t = t] assms
  by simp

lemma bindE_rel:
  assumes "rel_sum (=) R m m'"
    and "\<And>x y. R x y \<Longrightarrow> rel_sum (=) R' (f x) (g y)"
  shows "rel_sum (=) R' (bindE m f) (bindE m' g)"
  using assms by (cases m; cases m') simp_all

section \<open>Allocation\<close>

lemma fold_append_const: "fold (\<lambda>j row. row @ [x]) js row = row @ replicate (length js) x"
  by (induction js arbitrary: row) (simp_all add: replicate_app_Cons_same)

lemma zero_row: "for_loop 0 b (\<lambda>j row. row @ [x]) [] = replicate b x"
  by (simp add: for_loop_fold fold_append_const)

text \<open>
  \<open>allocate_clean_block\<close> makes \<open>b + 1\<close> calls of \<^verbatim>\<open>malloc\<close>, numbered from \<open>c\<close>.
  When all succeed it returns the \<open>b \<times> b\<close> block of zeros; when one fails the
  process exits with code 101 and the line of \<open>block_msg\<close>.
\<close>

lemma allocate_clean_block_eq:
  "allocate_clean_block ok b c =
     (if \<exists>m. c \<le> m \<and> m \<le> c + b \<and> \<not> ok m then Inl (Exit 101 block_msg)
      else Inr (replicate b (replicate b (0 :: 'a :: zero)), Suc (c + b)))"
proof (cases "ok c")
  case False
  then have "\<exists>m. c \<le> m \<and> m \<le> c + b \<and> \<not> ok m"
    by (intro exI [of _ c]) simp
  with False show ?thesis by (simp add: allocate_clean_block_def)
next
  case True
  let ?f = "\<lambda>(i::nat) (block :: 'a tile, c').
              if \<not> ok c' then Inl (Exit 101 block_msg)
              else Inr (block @ [for_loop 0 b (\<lambda>j row. row @ [0]) []], Suc c')"
  let ?J = "\<lambda>i (block :: 'a tile, c'). block = replicate i (replicate b 0) \<and> c' = Suc (c + i)
              \<and> (\<forall>m. c \<le> m \<and> m \<le> c + i \<longrightarrow> ok m)"
  let ?E = "\<lambda>e. e = Exit 101 block_msg \<and> (\<exists>m. c \<le> m \<and> m \<le> c + b \<and> \<not> ok m)"
  have "case for_loopE 0 b ?f ([], Suc c) of Inl e \<Rightarrow> ?E e | Inr s' \<Rightarrow> ?J b s'"
  proof (rule for_loopE_rule [where J = ?J and E = ?E])
    show "?J 0 ([], Suc c)" using True by (auto simp: le_antisym)
  next
    fix i and t :: "'a tile \<times> nat" assume i: "i < b" and J: "?J i t"
    obtain block c' where t: "t = (block, c')" by (cases t)
    show "case ?f i t of Inl e \<Rightarrow> ?E e | Inr t' \<Rightarrow> ?J (Suc i) t'"
    proof (cases "ok c'")
      case False
      with i J t show ?thesis
        by (auto intro!: exI [of _ "Suc (c + i)"])
    next
      case True
      with J t show ?thesis
        by (auto simp: zero_row replicate_append_same le_Suc_eq)
    qed
  qed simp
  then show ?thesis
    using True by (auto simp: allocate_clean_block_def split: sum.splits)
qed

section \<open>What one call does to the slots\<close>

lemma in_slots [simp]: "(i, j) \<in> slots s \<longleftrightarrow> grid s i j \<noteq> None"
  by (simp add: slots_def)

lemma held_mono: "slots s \<subseteq> slots t \<Longrightarrow> grid s i j \<noteq> None \<Longrightarrow> grid t i j \<noteq> None"
  unfolding slots_def by blast

lemma held_insert:
  assumes "slots u = insert (i, j) (slots t)"
  shows "grid u i j \<noteq> None" and "grid t a c \<noteq> None \<Longrightarrow> grid u a c \<noteq> None"
  using assms unfolding slots_def by blast+

lemma slots_submit [simp]: "slots (submit kd k i j s) = slots s"
  by (simp add: slots_def submit_def)

lemma grid_submit [simp]: "grid (submit kd k i j s) = grid s"
  by (simp add: submit_def)

lemma mallocs_submit [simp]: "mallocs (submit kd k i j s) = mallocs s"
  by (simp add: submit_def)

lemma trace_submit [simp]: "trace (submit kd k i j s) = trace s @ [Submit kd k i j]"
  by (simp add: submit_def)

lemma slots_set_slot:
  "grid s' = set_slot (grid s) i j (Some t) \<Longrightarrow> slots s' = insert (i, j) (slots s)"
  by (auto simp: slots_def set_slot_def split: if_splits)

lemma slots_set_Some [simp]:
  "slots (s\<lparr>grid := set_slot (grid s) i j (Some t)\<rparr>) = insert (i, j) (slots s)"
  by (simp add: slots_set_slot)

lemma slot_held: "grid s i j = Some t \<Longrightarrow> insert (i, j) (slots s) = slots s"
  by (auto simp: slots_def)

lemma lu0_call_cases:
  "case lu0_call b k s of
     Inl e \<Rightarrow> e = NullDeref \<and> grid s k k = None \<and> 2 \<le> b
   | Inr s' \<Rightarrow> slots s' = slots s \<and> trace s' = trace s \<and> mallocs s' = mallocs s"
  by (simp add: lu0_call_def slot_held split: option.splits)

lemma fwd_call_cases:
  "case fwd_call b k j s of
     Inl e \<Rightarrow> e = NullDeref \<and> (grid s k k = None \<or> grid s k j = None) \<and> 2 \<le> b
   | Inr s' \<Rightarrow> slots s' = slots s \<and> trace s' = trace s \<and> mallocs s' = mallocs s"
  by (simp add: fwd_call_def slot_held split: option.splits)

lemma bdiv_call_cases:
  "case bdiv_call b k i s of
     Inl e \<Rightarrow> e = NullDeref \<and> (grid s k k = None \<or> grid s i k = None) \<and> 1 \<le> b
   | Inr s' \<Rightarrow> slots s' = slots s \<and> trace s' = trace s \<and> mallocs s' = mallocs s"
  by (simp add: bdiv_call_def slot_held split: option.splits)

lemma bmod_call_cases:
  "case bmod_call b k i j s of
     Inl e \<Rightarrow> e = NullDeref \<and> (grid s i k = None \<or> grid s k j = None \<or> grid s i j = None)
               \<and> 1 \<le> b
   | Inr s' \<Rightarrow> slots s' = slots s \<and> trace s' = trace s \<and> mallocs s' = mallocs s"
  by (simp add: bmod_call_def slot_held split: option.splits)

lemma fill_in_cases:
  "case fill_in ok b who i j s of
     Inl e \<Rightarrow> e = Exit 101 block_msg
   | Inr s' \<Rightarrow> grid s' = set_slot (grid s) i j (Some (replicate b (replicate b 0)))
       \<and> slots s' = insert (i, j) (slots s)
       \<and> trace s' = trace s @ [Alloc who i j] \<and> mallocs s' = Suc (mallocs s + b)"
  by (simp add: fill_in_def allocate_clean_block_eq slots_set_slot)

text \<open>The four statements of a pass of \<open>sparselu_par_call\<close>, each on its own.\<close>

lemma par_fwd_cases:
  assumes "grid t k k \<noteq> None"
  shows "case (if grid t k j \<noteq> None then fwd_call b k j (submit FWD k k j t) else Inr t) of
           Inl e \<Rightarrow> False
         | Inr t' \<Rightarrow> slots t' = slots t \<and> mallocs t' = mallocs t"
  using assms fwd_call_cases [where b = b and k = k and j = j and s = "submit FWD k k j t"]
  by (auto split: sum.splits)

lemma par_bdiv_cases:
  assumes "grid t k k \<noteq> None"
  shows "case (if grid t i k \<noteq> None then bdiv_call b k i (submit BDIV k i k t) else Inr t) of
           Inl e \<Rightarrow> False
         | Inr t' \<Rightarrow> slots t' = slots t \<and> mallocs t' = mallocs t"
  using assms bdiv_call_cases [where b = b and k = k and i = i and s = "submit BDIV k i k t"]
  by (auto split: sum.splits)

lemma par_bmod_cases:
  assumes "grid t i k \<noteq> None"
  shows "case (if grid t k j \<noteq> None
               then bindE (if grid t i j = None then fill_in ok b Issuing_thread i j t else Inr t)
                      (\<lambda>t. bmod_call b k i j (submit BMOD k i j t))
               else Inr t) of
           Inl e \<Rightarrow> e = Exit 101 block_msg
         | Inr t' \<Rightarrow> slots t \<subseteq> slots t'"
proof (cases "grid t k j \<noteq> None")
  case False
  then show ?thesis by simp
next
  case kj: True
  show ?thesis
  proof (cases "grid t i j = None")
    case False
    with kj assms bmod_call_cases [where b = b and k = k and i = i and j = j and s = "submit BMOD k i j t"] show ?thesis
      by (auto split: sum.splits)
  next
    case True
    show ?thesis
    proof (cases "fill_in ok b Issuing_thread i j t")
      case (Inl e)
      with kj True fill_in_cases [where ok = ok and b = b and who = Issuing_thread and i = i and j = j and s = t] show ?thesis by simp
    next
      case (Inr u)
      with fill_in_cases [where ok = ok and b = b and who = Issuing_thread and i = i and j = j and s = t]
      have u: "slots u = insert (i, j) (slots t)" by simp
      then have "grid u i k \<noteq> None" "grid u k j \<noteq> None" "grid u i j \<noteq> None"
        using assms kj by (meson held_insert)+
      with bmod_call_cases [where b = b and k = k and i = i and j = j and s = "submit BMOD k i j u"] kj True Inr u show ?thesis
        by (auto split: sum.splits)
    qed
  qed
qed

section \<open>No null tile reaches a kernel when the diagonal is present\<close>

lemma par_pass_no_null:
  fixes s :: "('a :: {zero,minus,times,inverse}) state"
  assumes k: "k < n" and diag: "\<forall>i<n. grid s i i \<noteq> None"
  shows "case sparselu_par_call_pass ok n b k s of
           Inl e \<Rightarrow> e = Exit 101 block_msg
         | Inr s' \<Rightarrow> slots s \<subseteq> slots s'"
proof -
  let ?E = "\<lambda>e. e = Exit 101 block_msg"
  let ?J = "\<lambda>(i::nat) (t :: 'a state). slots s \<subseteq> slots t"
  let ?fwd = "\<lambda>jj (t :: 'a state).
       if grid t k jj \<noteq> None then fwd_call b k jj (submit FWD k k jj t) else Inr t"
  let ?bdiv = "\<lambda>ii (t :: 'a state).
       if grid t ii k \<noteq> None then bdiv_call b k ii (submit BDIV k ii k t) else Inr t"
  let ?bmod = "\<lambda>ii jj (t :: 'a state). if grid t k jj \<noteq> None
       then bindE (if grid t ii jj = None then fill_in ok b Issuing_thread ii jj t else Inr t)
              (\<lambda>t. bmod_call b k ii jj (submit BMOD k ii jj t))
       else Inr t"
  let ?rows = "\<lambda>ii (t :: 'a state).
       if grid t ii k \<noteq> None then for_loopE (k + 1) n (?bmod ii) t else Inr t"
  have kk: "grid t k k \<noteq> None" if "slots s \<subseteq> slots t" for t :: "'a state"
    using that k diag by (meson held_mono)
  have lu: "case lu0_call b k (submit LU0 k k k s) of Inl e \<Rightarrow> ?E e | Inr t \<Rightarrow> ?J 0 t"
    using lu0_call_cases [where b = b and k = k and s = "submit LU0 k k k s"] k diag
    by (auto split: sum.splits)
  have fwd: "case for_loopE (k + 1) n ?fwd t of Inl e \<Rightarrow> ?E e | Inr t' \<Rightarrow> ?J n t'"
    if "?J 0 t" for t :: "'a state"
  proof (rule for_loopE_rule [where J = ?J and E = ?E])
    fix i and u :: "'a state" assume J: "?J i u"
    from par_fwd_cases [OF kk [OF J], where j = i and b = b] J
    show "case ?fwd i u of Inl e \<Rightarrow> ?E e | Inr t' \<Rightarrow> ?J (Suc i) t'"
      by (auto split: sum.splits)
  qed (use k that in simp_all)
  have bdiv: "case for_loopE (k + 1) n ?bdiv t of Inl e \<Rightarrow> ?E e | Inr t' \<Rightarrow> ?J n t'"
    if "?J 0 t" for t :: "'a state"
  proof (rule for_loopE_rule [where J = ?J and E = ?E])
    fix i and u :: "'a state" assume J: "?J i u"
    from par_bdiv_cases [OF kk [OF J], where i = i and b = b] J
    show "case ?bdiv i u of Inl e \<Rightarrow> ?E e | Inr t' \<Rightarrow> ?J (Suc i) t'"
      by (auto split: sum.splits)
  qed (use k that in simp_all)
  have inner: "case for_loopE (k + 1) n (?bmod i) t of
                 Inl e \<Rightarrow> ?E e | Inr t' \<Rightarrow> slots t \<subseteq> slots t'"
    if held: "grid t i k \<noteq> None" for i and t :: "'a state"
  proof (rule for_loopE_rule [where J = "\<lambda>(j::nat) (u :: 'a state). slots t \<subseteq> slots u" and E = ?E])
    fix j and u :: "'a state" assume J: "slots t \<subseteq> slots u"
    with held have "grid u i k \<noteq> None" by (meson held_mono)
    from par_bmod_cases [OF this, where j = j and ok = ok and b = b] J
    show "case ?bmod i j u of Inl e \<Rightarrow> ?E e | Inr t' \<Rightarrow> slots t \<subseteq> slots t'"
      by (auto split: sum.splits)
  qed (use k in simp_all)
  have rows: "case for_loopE (k + 1) n ?rows t of Inl e \<Rightarrow> ?E e | Inr t' \<Rightarrow> ?J n t'"
    if "?J 0 t" for t :: "'a state"
  proof (rule for_loopE_rule [where J = ?J and E = ?E])
    fix i and u :: "'a state" assume J: "?J i u"
    show "case ?rows i u of Inl e \<Rightarrow> ?E e | Inr t' \<Rightarrow> ?J (Suc i) t'"
    proof (cases "grid u i k \<noteq> None")
      case True
      with inner [OF True] J show ?thesis by (auto split: sum.splits)
    next
      case False
      with J show ?thesis by simp
    qed
  qed (use k that in simp_all)
  show ?thesis
    unfolding sparselu_par_call_pass_def
  proof (rule bindE_cases [OF lu])
    fix s1 :: "'a state" assume J1: "?J 0 s1"
    show "case bindE (for_loopE (k + 1) n ?fwd s1)
                 (\<lambda>s. bindE (for_loopE (k + 1) n ?bdiv s) (for_loopE (k + 1) n ?rows)) of
            Inl e \<Rightarrow> ?E e | Inr s' \<Rightarrow> slots s \<subseteq> slots s'"
    proof (rule bindE_cases [OF fwd [OF J1]])
      fix s2 :: "'a state" assume J2: "?J n s2"
      show "case bindE (for_loopE (k + 1) n ?bdiv s2) (for_loopE (k + 1) n ?rows) of
              Inl e \<Rightarrow> ?E e | Inr s' \<Rightarrow> slots s \<subseteq> slots s'"
      proof (rule bindE_cases [OF bdiv [OF J2]])
        fix s3 :: "'a state" assume "?J n s3"
        then show "case for_loopE (k + 1) n ?rows s3 of
                     Inl e \<Rightarrow> ?E e | Inr s' \<Rightarrow> slots s \<subseteq> slots s'"
          by (rule rows)
      qed
    qed
  qed
qed

lemma par_call_no_null:
  fixes s :: "('a :: {zero,minus,times,inverse}) state"
  assumes diag: "\<forall>i<n. grid s i i \<noteq> None"
  shows "case sparselu_par_call ok n b s of
           Inl e \<Rightarrow> e = Exit 101 block_msg
         | Inr s' \<Rightarrow> slots s \<subseteq> slots s'"
  unfolding sparselu_par_call_def
proof (rule for_loopE_rule [where J = "\<lambda>(i::nat) (t :: 'a state). slots s \<subseteq> slots t"
        and E = "\<lambda>e. e = Exit 101 block_msg"])
  fix k and t :: "'a state" assume k: "k < n" and J: "slots s \<subseteq> slots t"
  then have "\<forall>i<n. grid t i i \<noteq> None"
    using diag by (meson held_mono)
  from par_pass_no_null [OF k this, where ok = ok and b = b] J
  show "case sparselu_par_call_pass ok n b k t of
          Inl e \<Rightarrow> e = Exit 101 block_msg | Inr t' \<Rightarrow> slots s \<subseteq> slots t'"
    by (auto split: sum.splits)
qed simp_all

section \<open>The slots the generator fills\<close>

lemma null_entry_iff:
  "\<not> null_entry i j \<longleftrightarrow>
     i = j \<or> i + 1 = j \<or> i = j + 1 \<or>
     (i mod 2 = 0 \<and> j mod 2 = 0 \<and> (j \<le> i \<or> i mod 3 = 0) \<and> (i \<le> j \<or> j mod 3 = 0))"
  unfolding null_entry_def Let_def by (simp split: if_splits) presburger

lemma genmat_task_Inr:
  assumes "genmat_task ok b ii jj (s, v) = Inr (s', v')"
  shows "\<exists>p. grid s' = set_slot (grid s) ii jj p \<and> (p = None \<longleftrightarrow> null_entry ii jj)
           \<and> trace s' = trace s"
proof (cases "null_entry ii jj")
  case True
  with assms show ?thesis by (auto simp: genmat_task_def)
next
  case False
  with assms show ?thesis
    by (auto simp: genmat_task_def allocate_clean_block_eq split: if_splits prod.splits)
qed

lemma genmat_loops_slots:
  assumes run: "genmat_loops sh ok n b s = Inr s'"
  shows "\<forall>i<n. \<forall>j<n. grid s' i j \<noteq> None \<longleftrightarrow> \<not> null_entry i j"
    and "trace s' = trace s"
proof -
  let ?body = "\<lambda>ii jj (sv :: rat state \<times> int).
      case sv of (s, init_val) \<Rightarrow>
        bindE (genmat_task ok b ii jj (s, init_val))
          (\<lambda>(s, task_init_val). Inr (s, if sh then task_init_val else init_val))"
  let ?filled = "\<lambda>(t :: rat state) i j. (grid t i j \<noteq> None \<longleftrightarrow> \<not> null_entry i j)"
  let ?Jin = "\<lambda>ii jj (sv :: rat state \<times> int).
      (\<forall>i j. (i < ii \<and> j < n) \<or> (i = ii \<and> j < jj) \<longrightarrow> ?filled (fst sv) i j)
      \<and> trace (fst sv) = trace s"
  let ?Jout = "\<lambda>ii (sv :: rat state \<times> int).
      (\<forall>i j. i < ii \<and> j < n \<longrightarrow> ?filled (fst sv) i j) \<and> trace (fst sv) = trace s"
  have inner: "?Jout (Suc ii) sv'"
    if "for_loopE 0 n (?body ii) sv = Inr sv'" and "?Jout ii sv" for ii sv sv'
  proof -
    have "?Jin ii n sv'"
      using that(1)
    proof (rule for_loopE_Inr_rule [where J = "?Jin ii"])
      show "?Jin ii 0 sv" using that(2) by simp
    next
      fix jj and tv tv' :: "rat state \<times> int"
      assume jj: "jj < n" and J: "?Jin ii jj tv" and step: "?body ii jj tv = Inr tv'"
      obtain t v where tv: "tv = (t, v)" by (cases tv)
      obtain t' v' where tv': "tv' = (t', v')" by (cases tv')
      from step tv tv' obtain w where "genmat_task ok b ii jj (t, v) = Inr (t', w)"
        by (auto simp: bindE_Inr_iff)
      from genmat_task_Inr [OF this] obtain p where
        p: "grid t' = set_slot (grid t) ii jj p" "p = None \<longleftrightarrow> null_entry ii jj"
           "trace t' = trace t"
        by blast
      show "?Jin ii (Suc jj) tv'"
        using J p unfolding tv tv' by (auto simp: set_slot_def less_Suc_eq)
    qed simp
    then show ?thesis by (auto simp: less_Suc_eq)
  qed
  from run obtain sv' where loops: "for_loopE 0 n (\<lambda>ii. for_loopE 0 n (?body ii)) (s, 1325) = Inr sv'"
    and s': "s' = fst sv'"
    by (auto simp: genmat_loops_def bindE_Inr_iff split: prod.splits)
  have "?Jout n sv'"
    using loops
  proof (rule for_loopE_Inr_rule [where J = ?Jout])
    fix ii and tv tv' :: "rat state \<times> int"
    assume "?Jout ii tv" and "for_loopE 0 n (?body ii) tv = Inr tv'"
    then show "?Jout (Suc ii) tv'" by (rule inner [rotated])
  qed simp_all
  then show "\<forall>i<n. \<forall>j<n. grid s' i j \<noteq> None \<longleftrightarrow> \<not> null_entry i j" and "trace s' = trace s"
    by (simp_all add: s')
qed

lemma sparselu_init_slots:
  assumes "sparselu_init ok n b c = Inr s"
  shows "\<forall>i<n. \<forall>j<n. grid s i j \<noteq> None \<longleftrightarrow> \<not> null_entry i j" and "trace s = []"
proof -
  from assms obtain c' where
    "genmat ok n b \<lparr>grid = (\<lambda>i j. None), mallocs = c', trace = []\<rparr> = Inr s"
    by (auto simp: sparselu_init_def bindE_Inr_iff split: if_splits)
  then have run: "genmat_loops False ok n b \<lparr>grid = (\<lambda>i j. None), mallocs = c', trace = []\<rparr> = Inr s"
    by (simp add: genmat_def)
  from genmat_loops_slots [OF run]
  show "\<forall>i<n. \<forall>j<n. grid s i j \<noteq> None \<longleftrightarrow> \<not> null_entry i j" and "trace s = []"
    by simp_all
qed

lemma sparselu_init_diagonal:
  assumes "sparselu_init ok n b c = Inr s"
  shows "\<forall>i<n. grid s i i \<noteq> None"
  using sparselu_init_slots(1) [OF assms] by (simp add: null_entry_iff)

section \<open>The diagonal kernel\<close>

lemma for_loop_fold_fun: "for_loop a n body = fold body [a..<n]"
  by (rule ext) (rule for_loop_fold)

lemma lu0_two_by_two:
  "lu0 [[a, b], [c, d]] 2 = [[a, b], [c / a, d - (c / a) * b]]"
  by (simp add: lu0_def for_loop_fold_fun Let_def get_def put_def upt_conv_Cons
      eval_nat_numeral)

text \<open>
  C5. For every tile \<open>diag\<close> and size \<open>b\<close>, \<open>lu0 diag b\<close> is the in-place
  elimination of the specification: for \<open>k\<close> from \<open>0\<close> to \<open>b - 1\<close>, for each
  \<open>i > k\<close>, first \<open>diag[i][k]\<close> becomes \<open>diag[i][k] / diag[k][k]\<close>, then for each
  \<open>j > k\<close>, \<open>diag[i][j]\<close> becomes \<open>diag[i][j] - diag[i][k] * diag[k][j]\<close>, in that
  order. Nothing is exchanged and the divisor is not tested: on a \<open>2 \<times> 2\<close> tile
  the entry below the diagonal is divided by \<open>diag[0][0]\<close> whatever its value.
\<close>

theorem lu0_is_unpivoted_elimination:
  "lu0 diag b = lu0_spec diag b
   \<and> lu0 [[p, q], [r, t]] 2 = [[p, q], [r / p, t - (r / p) * q]]"
  by (simp add: lu0_two_by_two)
     (simp add: lu0_def lu0_spec_def lu0_row_update_def [abs_def] for_loop_fold_fun Let_def)

section \<open>A matrix of one tile\<close>

text \<open>
  C8. With \<open>matrix_size = 1\<close> and the diagonal tile present, \<open>sparselu_par_call\<close>
  creates the one task \<open>lu0\<close> on slot \<open>(0, 0)\<close> and nothing else: the slot then
  holds \<open>lu0\<close> of the tile, the trace gains this one event (no \<open>fwd\<close>, \<open>bdiv\<close> or
  \<open>bmod\<close> task, no allocation), and the rest of the state is unchanged.
\<close>

theorem single_tile_is_lu0:
  "grid s 0 0 = Some diag \<Longrightarrow>
   sparselu_par_call ok 1 b s =
     Inr (s\<lparr>grid := set_slot (grid s) 0 0 (Some (lu0 diag b)),
            trace := trace s @ [Submit LU0 0 0 0]\<rparr>)"
  by (simp add: sparselu_par_call_def sparselu_par_call_pass_def for_loopE_step
      for_loopE_empty lu0_call_def submit_def)

theorem single_tile_is_lu0_witness:
  "grid one_tile 0 0 = Some [[2, 1], [4, 5]]
   \<and> map_sum id (\<lambda>s. (grid s 0 0, trace s, mallocs s))
       (sparselu_par_call (\<lambda>c. True) 1 2 one_tile)
     = Inr (Some [[2, 1], [2, 3]], [Submit LU0 0 0 0], 0)"
  using single_tile_is_lu0 [of one_tile "[[2, 1], [4, 5]]" "\<lambda>c. True" 2]
  by (simp add: one_tile_def set_slot_def lu0_two_by_two)

section \<open>The unguarded diagonal\<close>

lemma par_call_null_diagonal: "sparselu_par_call ok 1 2 no_tile = Inl NullDeref"
  by (simp add: sparselu_par_call_def sparselu_par_call_pass_def for_loopE_step
      for_loopE_empty lu0_call_def submit_def no_tile_def)

lemma seq_call_null_diagonal: "sparselu_seq_call ok 1 2 no_tile = Inr no_tile"
  by (simp add: sparselu_seq_call_def sparselu_seq_call_pass_def for_loopE_step
      for_loopE_empty no_tile_def)

lemma sparselu_init_1_2: "\<exists>s0. sparselu_init (\<lambda>c. True) 1 2 0 = Inr s0"
  by (simp add: sparselu_init_def genmat_def genmat_loops_def genmat_task_def for_loopE_step
      for_loopE_empty allocate_clean_block_eq null_entry_def Let_def split: prod.splits)

text \<open>
  C10. \<open>sparselu_par_call\<close> passes slot \<open>(kk, kk)\<close> to \<open>lu0\<close>, \<open>fwd\<close> and \<open>bdiv\<close>
  without testing it, where \<open>sparselu_seq_call\<close> tests it: on the matrix whose
  only slot is null the first dereferences a null pointer and the second returns.
  When every diagonal slot below \<open>matrix_size\<close> holds a tile, which is so for
  every matrix that \<open>sparselu_init\<close> returns, no kernel of \<open>sparselu_par_call\<close> is
  given a null tile: the run never ends in a null dereference.
\<close>

theorem diagonal_present_no_null:
  fixes s :: "('a :: {zero,minus,times,inverse}) state"
  shows "((\<forall>i<n. grid s i i \<noteq> None) \<longrightarrow> sparselu_par_call ok n b s \<noteq> Inl NullDeref)
    \<and> (sparselu_init ok' n b c = Inr s0 \<longrightarrow>
         (\<forall>i<n. grid s0 i i \<noteq> None) \<and> sparselu_par_call ok n b s0 \<noteq> Inl NullDeref)
    \<and> sparselu_par_call ok 1 2 no_tile = Inl NullDeref
    \<and> sparselu_seq_call ok 1 2 no_tile = Inr no_tile"
proof -
  have par: "sparselu_par_call ok n b t \<noteq> Inl NullDeref"
    if "\<forall>i<n. grid t i i \<noteq> None" for t :: "('b :: {zero,minus,times,inverse}) state"
    using par_call_no_null [OF that, where ok = ok and b = b]
    by (auto split: sum.splits)
  show ?thesis
    using par [of s] par [of s0] sparselu_init_diagonal [of ok' n b c s0]
      par_call_null_diagonal [of ok] seq_call_null_diagonal [of ok]
    by simp
qed

theorem diagonal_present_no_null_witness:
  "grid one_tile 0 0 \<noteq> None
   \<and> sparselu_par_call (\<lambda>c. True) 1 2 one_tile \<noteq> Inl NullDeref
   \<and> (case sparselu_init (\<lambda>c. True) 1 2 0 of
        Inl e \<Rightarrow> False
      | Inr s0 \<Rightarrow> grid s0 0 0 \<noteq> None
          \<and> sparselu_par_call (\<lambda>c. True) 1 2 s0 \<noteq> Inl NullDeref)"
proof -
  obtain s0 where s0: "sparselu_init (\<lambda>c. True) 1 2 0 = Inr s0"
    using sparselu_init_1_2 by blast
  have held: "\<forall>i<1. grid one_tile i i \<noteq> None"
    by (simp add: one_tile_def)
  from diagonal_present_no_null [of 1 one_tile "\<lambda>c. True" 2 "\<lambda>c. True" 0 s0] s0 held
  show ?thesis by simp
qed

section \<open>The task version and the sequential reference\<close>

lemma same_matrix_submit: "same_matrix n s t \<Longrightarrow> same_matrix n (submit kd k i j s) t"
  by (auto simp: same_matrix_def)

lemma lu0_call_rel:
  "same_matrix n s t \<Longrightarrow> rel_sum (=) (same_matrix n) (lu0_call b k s) (lu0_call b k t)"
  by (auto simp: same_matrix_def lu0_call_def set_slot_def split: option.splits)

lemma fwd_call_rel:
  "same_matrix n s t \<Longrightarrow> rel_sum (=) (same_matrix n) (fwd_call b k j s) (fwd_call b k j t)"
  by (auto simp: same_matrix_def fwd_call_def set_slot_def split: option.splits)

lemma bdiv_call_rel:
  "same_matrix n s t \<Longrightarrow> rel_sum (=) (same_matrix n) (bdiv_call b k i s) (bdiv_call b k i t)"
  by (auto simp: same_matrix_def bdiv_call_def set_slot_def split: option.splits)

lemma bmod_call_rel:
  "same_matrix n s t \<Longrightarrow>
   rel_sum (=) (same_matrix n) (bmod_call b k i j s) (bmod_call b k i j t)"
  by (auto simp: same_matrix_def bmod_call_def set_slot_def split: option.splits)

lemma fill_in_rel:
  "same_matrix n s t \<Longrightarrow>
   rel_sum (=) (same_matrix n) (fill_in ok b who i j s) (fill_in ok b who' i j t)"
  by (auto simp: same_matrix_def fill_in_def allocate_clean_block_eq set_slot_def)

lemma par_seq_pass_rel:
  fixes s t :: "('a :: {zero,minus,times,inverse}) state"
  assumes k: "k < n" and st: "same_matrix n s t"
  shows "rel_sum (=) (same_matrix n)
           (sparselu_par_call_pass ok n b k s) (sparselu_seq_call_pass ok n b k t)"
proof -
  let ?R = "same_matrix n :: 'a state \<Rightarrow> 'a state \<Rightarrow> bool"
  have kk: "grid v k k \<noteq> None" and eq: "grid u = grid v" if "?R u v" for u v
    using that k by (auto simp: same_matrix_def)
  have lu: "rel_sum (=) ?R (lu0_call b k (submit LU0 k k k s))
              (if grid t k k \<noteq> None then lu0_call b k t else Inr t)"
    using lu0_call_rel [OF same_matrix_submit [OF st]] kk [OF st] by simp
  have fwd: "rel_sum (=) ?R
      (for_loopE (k + 1) n (\<lambda>jj s.
         if grid s k jj \<noteq> None then fwd_call b k jj (submit FWD k k jj s) else Inr s) u)
      (for_loopE (k + 1) n (\<lambda>jj s.
         if grid s k jj \<noteq> None \<and> grid s k k \<noteq> None then fwd_call b k jj s else Inr s) v)"
    if uv: "?R u v" for u v
    using uv
  proof (rule for_loopE_rel)
    fix j and u v :: "'a state" assume uv: "?R u v"
    show "rel_sum (=) ?R
        (if grid u k j \<noteq> None then fwd_call b k j (submit FWD k k j u) else Inr u)
        (if grid v k j \<noteq> None \<and> grid v k k \<noteq> None then fwd_call b k j v else Inr v)"
      using fwd_call_rel [OF same_matrix_submit [OF uv]] kk [OF uv] eq [OF uv] uv by simp
  qed
  have bdiv: "rel_sum (=) ?R
      (for_loopE (k + 1) n (\<lambda>ii s.
         if grid s ii k \<noteq> None then bdiv_call b k ii (submit BDIV k ii k s) else Inr s) u)
      (for_loopE (k + 1) n (\<lambda>ii s.
         if grid s ii k \<noteq> None \<and> grid s k k \<noteq> None then bdiv_call b k ii s else Inr s) v)"
    if uv: "?R u v" for u v
    using uv
  proof (rule for_loopE_rel)
    fix i and u v :: "'a state" assume uv: "?R u v"
    show "rel_sum (=) ?R
        (if grid u i k \<noteq> None then bdiv_call b k i (submit BDIV k i k u) else Inr u)
        (if grid v i k \<noteq> None \<and> grid v k k \<noteq> None then bdiv_call b k i v else Inr v)"
      using bdiv_call_rel [OF same_matrix_submit [OF uv]] kk [OF uv] eq [OF uv] uv by simp
  qed
  let ?pbmod = "\<lambda>ii jj (s :: 'a state).
      if grid s k jj \<noteq> None
      then bindE (if grid s ii jj = None then fill_in ok b Issuing_thread ii jj s else Inr s)
             (\<lambda>s. bmod_call b k ii jj (submit BMOD k ii jj s))
      else Inr s"
  let ?sbmod = "\<lambda>ii jj (s :: 'a state).
      if grid s k jj \<noteq> None
      then bindE (if grid s ii jj = None then fill_in ok b Issuing_thread ii jj s else Inr s)
             (bmod_call b k ii jj)
      else Inr s"
  have cell: "rel_sum (=) ?R (?pbmod i j u) (?sbmod i j v)" if uv: "?R u v" for i j u v
  proof (cases "grid u k j \<noteq> None")
    case False
    with eq [OF uv] uv show ?thesis by simp
  next
    case True
    have fill: "rel_sum (=) ?R
        (if grid u i j = None then fill_in ok b Issuing_thread i j u else Inr u)
        (if grid v i j = None then fill_in ok b Issuing_thread i j v else Inr v)"
      using fill_in_rel [OF uv] eq [OF uv] uv by simp
    have "rel_sum (=) ?R
        (bindE (if grid u i j = None then fill_in ok b Issuing_thread i j u else Inr u)
           (\<lambda>s. bmod_call b k i j (submit BMOD k i j s)))
        (bindE (if grid v i j = None then fill_in ok b Issuing_thread i j v else Inr v)
           (bmod_call b k i j))"
      using fill
    proof (rule bindE_rel)
      fix x y :: "'a state" assume "?R x y"
      then show "rel_sum (=) ?R (bmod_call b k i j (submit BMOD k i j x)) (bmod_call b k i j y)"
        by (intro bmod_call_rel same_matrix_submit)
    qed
    with True eq [OF uv] show ?thesis by simp
  qed
  have rows: "rel_sum (=) ?R
      (for_loopE (k + 1) n (\<lambda>ii s.
         if grid s ii k \<noteq> None then for_loopE (k + 1) n (?pbmod ii) s else Inr s) u)
      (for_loopE (k + 1) n (\<lambda>ii s.
         if grid s ii k \<noteq> None then for_loopE (k + 1) n (?sbmod ii) s else Inr s) v)"
    if uv: "?R u v" for u v
    using uv
  proof (rule for_loopE_rel)
    fix i and u v :: "'a state" assume uv: "?R u v"
    have "rel_sum (=) ?R (for_loopE (k + 1) n (?pbmod i) u) (for_loopE (k + 1) n (?sbmod i) v)"
      using uv by (rule for_loopE_rel) (rule cell)
    with eq [OF uv] uv
    show "rel_sum (=) ?R
        (if grid u i k \<noteq> None then for_loopE (k + 1) n (?pbmod i) u else Inr u)
        (if grid v i k \<noteq> None then for_loopE (k + 1) n (?sbmod i) v else Inr v)"
      by simp
  qed
  show ?thesis
    unfolding sparselu_par_call_pass_def sparselu_seq_call_pass_def
    using lu
  proof (rule bindE_rel)
    fix s1 t1 :: "'a state" assume "?R s1 t1"
    from fwd [OF this]
    show "rel_sum (=) ?R
        (bindE (for_loopE (k + 1) n (\<lambda>jj s.
            if grid s k jj \<noteq> None then fwd_call b k jj (submit FWD k k jj s) else Inr s) s1)
          (\<lambda>s. bindE (for_loopE (k + 1) n (\<lambda>ii s.
              if grid s ii k \<noteq> None then bdiv_call b k ii (submit BDIV k ii k s) else Inr s) s)
            (for_loopE (k + 1) n (\<lambda>ii s.
              if grid s ii k \<noteq> None then for_loopE (k + 1) n (?pbmod ii) s else Inr s))))
        (bindE (for_loopE (k + 1) n (\<lambda>jj s.
            if grid s k jj \<noteq> None \<and> grid s k k \<noteq> None then fwd_call b k jj s else Inr s) t1)
          (\<lambda>s. bindE (for_loopE (k + 1) n (\<lambda>ii s.
              if grid s ii k \<noteq> None \<and> grid s k k \<noteq> None then bdiv_call b k ii s else Inr s) s)
            (for_loopE (k + 1) n (\<lambda>ii s.
              if grid s ii k \<noteq> None then for_loopE (k + 1) n (?sbmod ii) s else Inr s))))"
    proof (rule bindE_rel)
      fix s2 t2 :: "'a state" assume "?R s2 t2"
      from bdiv [OF this]
      show "rel_sum (=) ?R
          (bindE (for_loopE (k + 1) n (\<lambda>ii s.
              if grid s ii k \<noteq> None then bdiv_call b k ii (submit BDIV k ii k s) else Inr s) s2)
            (for_loopE (k + 1) n (\<lambda>ii s.
              if grid s ii k \<noteq> None then for_loopE (k + 1) n (?pbmod ii) s else Inr s)))
          (bindE (for_loopE (k + 1) n (\<lambda>ii s.
              if grid s ii k \<noteq> None \<and> grid s k k \<noteq> None then bdiv_call b k ii s else Inr s) t2)
            (for_loopE (k + 1) n (\<lambda>ii s.
              if grid s ii k \<noteq> None then for_loopE (k + 1) n (?sbmod ii) s else Inr s)))"
        by (rule bindE_rel) (rule rows)
    qed
  qed
qed

lemma par_seq_rel:
  fixes s t :: "('a :: {zero,minus,times,inverse}) state"
  assumes "same_matrix n s t"
  shows "rel_sum (=) (same_matrix n) (sparselu_par_call ok n b s) (sparselu_seq_call ok n b t)"
  unfolding sparselu_par_call_def sparselu_seq_call_def
  using assms by (rule for_loopE_rel) (rule par_seq_pass_rel)

text \<open>
  The two functions differ only on a matrix with a null diagonal slot, which
  \<open>sparselu_par_call\<close> dereferences and \<open>sparselu_seq_call\<close> skips.
  \<open>sparselu_init\<close> returns no such matrix (\<open>sparselu_init_diagonal\<close>).
\<close>

lemma par_seq_differ_on_null_diagonal:
  "map_sum id grid (sparselu_par_call (\<lambda>c. True) 1 2 no_tile)
   \<noteq> map_sum id grid (sparselu_seq_call (\<lambda>c. True) 1 2 no_tile)"
  using par_call_null_diagonal [of "\<lambda>c. True"] seq_call_null_diagonal [of "\<lambda>c. True"]
  by simp

text \<open>
  For every matrix whose diagonal slots below \<open>matrix_size\<close> all hold a tile,
  \<open>sparselu_par_call\<close> of \<^verbatim>\<open>sparselu-task-dep.c\<close>, each task run where it is
  created, and \<open>sparselu_seq_call\<close> of \<^verbatim>\<open>sparselu-task.c\<close>, started on the same
  matrix with the same outcomes of \<^verbatim>\<open>malloc\<close>, end alike: both exit with code
  101, or both return with the same slots present and the same tiles, whatever
  the arithmetic of the entries. Every matrix that \<open>sparselu_init\<close> returns is
  such a matrix.
\<close>

theorem par_call_agrees_with_seq_call:
  fixes s :: "('a :: {zero,minus,times,inverse}) state"
  shows "((\<forall>i<n. grid s i i \<noteq> None) \<longrightarrow>
            map_sum id grid (sparselu_par_call ok n b s)
            = map_sum id grid (sparselu_seq_call ok n b s))
    \<and> (sparselu_init ok' n b c = Inr s0 \<longrightarrow>
          map_sum id grid (sparselu_par_call ok n b s0)
          = map_sum id grid (sparselu_seq_call ok n b s0))"
proof -
  have agree: "map_sum id grid (sparselu_par_call ok n b t)
               = map_sum id grid (sparselu_seq_call ok n b t)"
    if "\<forall>i<n. grid t i i \<noteq> None" for t :: "('b :: {zero,minus,times,inverse}) state"
  proof -
    have "same_matrix n t t"
      using that by (simp add: same_matrix_def)
    from par_seq_rel [OF this, where ok = ok and b = b] show ?thesis
      by (cases "sparselu_par_call ok n b t"; cases "sparselu_seq_call ok n b t")
         (simp_all add: same_matrix_def)
  qed
  show ?thesis
    using agree [of s] agree [of s0] sparselu_init_diagonal [of ok' n b c s0] by blast
qed

section \<open>Orderly traces\<close>

lemma allocated_append [simp]: "allocated (xs @ ys) = allocated xs \<union> allocated ys"
  by (induction xs rule: allocated.induct) auto

lemma orderly_append:
  "orderly S (xs @ ys) \<longleftrightarrow> orderly S xs \<and> orderly (S \<union> allocated xs) ys"
  by (induction S xs rule: orderly.induct) auto

lemma follows_refl: "follows s s"
  unfolding follows_def by (intro exI [of _ "[]"]) simp

lemma follows_trans:
  assumes "follows s t" and "follows t u"
  shows "follows s u"
proof -
  from assms(1) obtain xs where xs: "trace t = trace s @ xs"
    "slots t = slots s \<union> allocated xs" "orderly (slots s) xs"
    unfolding follows_def by blast
  from assms(2) obtain ys where ys: "trace u = trace t @ ys"
    "slots u = slots t \<union> allocated ys" "orderly (slots t) ys"
    unfolding follows_def by blast
  show ?thesis
    unfolding follows_def
    using xs ys by (intro exI [of _ "xs @ ys"]) (auto simp: orderly_append)
qed

lemma follows_same:
  "slots t = slots s \<Longrightarrow> trace t = trace s \<Longrightarrow> follows s t"
  unfolding follows_def by (intro exI [of _ "[]"]) simp

lemma follows_submit:
  "kd = BMOD \<longrightarrow> grid s i j \<noteq> None \<Longrightarrow> follows s (submit kd k i j s)"
  unfolding follows_def by (intro exI [of _ "[Submit kd k i j]"]) simp

lemma follows_fill_in:
  assumes "fill_in ok b Issuing_thread i j s = Inr t" and "grid s i j = None"
  shows "follows s t"
proof -
  from fill_in_cases [where ok = ok and b = b and who = Issuing_thread and i = i and j = j and s = s]
    assms(1)
  have "trace t = trace s @ [Alloc Issuing_thread i j]" "slots t = insert (i, j) (slots s)"
    by simp_all
  with assms(2) show ?thesis
    unfolding follows_def by (intro exI [of _ "[Alloc Issuing_thread i j]"]) simp
qed

lemma follows_slots: "follows s t \<Longrightarrow> slots s \<subseteq> slots t"
  unfolding follows_def by auto

lemma for_loopE_preorder:
  assumes refl: "\<And>s. R s s" and trans: "\<And>s t u. R s t \<Longrightarrow> R t u \<Longrightarrow> R s u"
    and run: "for_loopE a n f s = Inr s'"
    and step: "\<And>i t t'. a \<le> i \<Longrightarrow> i < n \<Longrightarrow> f i t = Inr t' \<Longrightarrow> R t t'"
  shows "R s s'"
proof (cases "a \<le> n")
  case True
  from run True show ?thesis
    by (rule for_loopE_Inr_rule [where J = "\<lambda>i t. R s t"]) (auto intro: refl trans step)
next
  case False
  with run show ?thesis by (simp add: for_loopE_empty refl)
qed

lemma lu0_call_follows: "lu0_call b k s = Inr t \<Longrightarrow> follows s t"
  using lu0_call_cases [where b = b and k = k and s = s] by (auto intro: follows_same)

lemma fwd_call_follows: "fwd_call b k j s = Inr t \<Longrightarrow> follows s t"
  using fwd_call_cases [where b = b and k = k and j = j and s = s] by (auto intro: follows_same)

lemma bdiv_call_follows: "bdiv_call b k i s = Inr t \<Longrightarrow> follows s t"
  using bdiv_call_cases [where b = b and k = k and i = i and s = s] by (auto intro: follows_same)

lemma bmod_call_follows: "bmod_call b k i j s = Inr t \<Longrightarrow> follows s t"
  using bmod_call_cases [where b = b and k = k and i = i and j = j and s = s]
  by (auto intro: follows_same)

lemma par_bmod_follows:
  assumes "bindE (if grid t i j = None then fill_in ok b Issuing_thread i j t else Inr t)
             (\<lambda>t. bmod_call b k i j (submit BMOD k i j t)) = Inr t'"
  shows "follows t t'"
proof -
  from assms obtain u where
    u: "(if grid t i j = None then fill_in ok b Issuing_thread i j t else Inr t) = Inr u"
    and t': "bmod_call b k i j (submit BMOD k i j u) = Inr t'"
    by (auto simp: bindE_Inr_iff)
  have tu: "follows t u" and held: "grid u i j \<noteq> None"
  proof -
    show "follows t u"
      using u by (auto split: if_splits intro: follows_fill_in follows_refl)
    show "grid u i j \<noteq> None"
    proof (cases "grid t i j = None")
      case True
      with u fill_in_cases [where ok = ok and b = b and who = Issuing_thread and i = i and j = j and s = t]
      have "slots u = insert (i, j) (slots t)" by simp
      then show ?thesis by (rule held_insert)
    next
      case False
      with u show ?thesis by simp
    qed
  qed
  from held have "follows u (submit BMOD k i j u)"
    by (intro follows_submit) simp
  with tu bmod_call_follows [OF t'] show ?thesis
    by (blast intro: follows_trans)
qed

lemma par_pass_follows:
  fixes s :: "('a :: {zero,minus,times,inverse}) state"
  assumes run: "sparselu_par_call_pass ok n b k s = Inr s'"
  shows "follows s s'"
proof -
  let ?fwd = "\<lambda>jj (t :: 'a state).
       if grid t k jj \<noteq> None then fwd_call b k jj (submit FWD k k jj t) else Inr t"
  let ?bdiv = "\<lambda>ii (t :: 'a state).
       if grid t ii k \<noteq> None then bdiv_call b k ii (submit BDIV k ii k t) else Inr t"
  let ?bmod = "\<lambda>ii jj (t :: 'a state). if grid t k jj \<noteq> None
       then bindE (if grid t ii jj = None then fill_in ok b Issuing_thread ii jj t else Inr t)
              (\<lambda>t. bmod_call b k ii jj (submit BMOD k ii jj t))
       else Inr t"
  let ?rows = "\<lambda>ii (t :: 'a state).
       if grid t ii k \<noteq> None then for_loopE (k + 1) n (?bmod ii) t else Inr t"
  from run obtain s1 s2 s3 where
    s1: "lu0_call b k (submit LU0 k k k s) = Inr s1"
    and s2: "for_loopE (k + 1) n ?fwd s1 = Inr s2"
    and s3: "for_loopE (k + 1) n ?bdiv s2 = Inr s3"
    and s': "for_loopE (k + 1) n ?rows s3 = Inr s'"
    unfolding sparselu_par_call_pass_def by (auto simp: bindE_Inr_iff)
  have "follows s (submit LU0 k k k s)"
    by (intro follows_submit) simp
  with lu0_call_follows [OF s1] have 1: "follows s s1"
    by (blast intro: follows_trans)
  have sub: "follows t (submit kd k i j t)" if "kd \<noteq> BMOD" for kd i j and t :: "'a state"
    using that by (intro follows_submit) simp
  have 2: "follows s1 s2"
    using follows_refl follows_trans s2
  proof (rule for_loopE_preorder)
    fix j and t t' :: "'a state" assume "?fwd j t = Inr t'"
    then show "follows t t'"
      using sub [of FWD t k j]
      by (auto split: if_splits dest!: fwd_call_follows intro: follows_trans follows_refl)
  qed
  have 3: "follows s2 s3"
    using follows_refl follows_trans s3
  proof (rule for_loopE_preorder)
    fix i and t t' :: "'a state" assume "?bdiv i t = Inr t'"
    then show "follows t t'"
      using sub [of BDIV t i k]
      by (auto split: if_splits dest!: bdiv_call_follows intro: follows_trans follows_refl)
  qed
  have 4: "follows s3 s'"
    using follows_refl follows_trans s'
  proof (rule for_loopE_preorder)
    fix i and t t' :: "'a state" assume row: "?rows i t = Inr t'"
    show "follows t t'"
    proof (cases "grid t i k \<noteq> None")
      case False
      with row show ?thesis by (simp add: follows_refl)
    next
      case True
      with row have "for_loopE (k + 1) n (?bmod i) t = Inr t'" by simp
      with follows_refl follows_trans show ?thesis
      proof (rule for_loopE_preorder)
        fix j and u u' :: "'a state" assume cell: "?bmod i j u = Inr u'"
        show "follows u u'"
        proof (cases "grid u k j \<noteq> None")
          case False
          with cell show ?thesis by (simp add: follows_refl)
        next
          case True
          with cell have
            "bindE (if grid u i j = None then fill_in ok b Issuing_thread i j u else Inr u)
               (\<lambda>t. bmod_call b k i j (submit BMOD k i j t)) = Inr u'"
            by simp
          then show ?thesis by (rule par_bmod_follows)
        qed
      qed
    qed
  qed
  from 1 2 3 4 show ?thesis by (blast intro: follows_trans)
qed

lemma par_call_follows:
  fixes s :: "('a :: {zero,minus,times,inverse}) state"
  assumes "for_loopE a n (sparselu_par_call_pass ok m b) s = Inr s'"
  shows "follows s s'"
  using follows_refl follows_trans assms
proof (rule for_loopE_preorder)
  fix k and t t' :: "'a state" assume "sparselu_par_call_pass ok m b k t = Inr t'"
  then show "follows t t'" by (rule par_pass_follows)
qed

section \<open>Counting the tasks of a pass\<close>

lemma for_loopE_count:
  fixes m :: "'s \<Rightarrow> nat"
  assumes run: "for_loopE a n f s = Inr s'" and an: "a \<le> n" and I: "I s"
    and step: "\<And>i t t'. a \<le> i \<Longrightarrow> i < n \<Longrightarrow> I t \<Longrightarrow> f i t = Inr t' \<Longrightarrow>
                 I t' \<and> m t' = m t + w i"
  shows "I s' \<and> m s' = m s + sum w {a..<n}"
  using run an
proof (rule for_loopE_Inr_rule [where J = "\<lambda>i t. I t \<and> m t = m s + sum w {a..<i}"])
  show "I s \<and> m s = m s + sum w {a..<a}" using I by simp
next
  fix i t t'
  assume "a \<le> i" "i < n" "I t \<and> m t = m s + sum w {a..<i}" "f i t = Inr t'"
  with step [of i t t'] show "I t' \<and> m t' = m s + sum w {a..<Suc i}"
    by (simp add: sum.atLeastLessThan_Suc)
qed

lemma task_count_append [simp]:
  "task_count kd k (xs @ ys) = task_count kd k xs + task_count kd k ys"
  by (simp add: task_count_def)

lemma task_count_Nil [simp]: "task_count kd k [] = 0"
  by (simp add: task_count_def)

lemma task_count_Submit [simp]:
  "task_count kd k [Submit kd' k' i j] = (if kd' = kd \<and> k' = k then 1 else 0)"
  by (simp add: task_count_def)

lemma task_count_Alloc [simp]: "task_count kd k [Alloc who i j] = 0"
  by (simp add: task_count_def)

lemma cross_same: "slots t = slots s \<Longrightarrow> cross k t = cross k s"
  unfolding cross_def slots_def by blast

lemma cross_slots: "cross k s = {p \<in> slots s. fst p = k \<or> snd p = k}"
  by (auto simp: cross_def)

lemma cross_insert:
  assumes "slots t = insert (i, j) (slots s)" and "k < i" and "k < j"
  shows "cross k t = cross k s"
proof -
  have "{p \<in> insert (i, j) (slots s). fst p = k \<or> snd p = k}
        = {p \<in> slots s. fst p = k \<or> snd p = k}"
    using assms(2,3) by auto
  then show ?thesis by (simp only: cross_slots assms(1))
qed

lemma cross_row:
  assumes "cross k t = cross k s"
  shows "(grid t k x \<noteq> None) = (grid s k x \<noteq> None)"
proof -
  have "(k, x) \<in> cross k t \<longleftrightarrow> (k, x) \<in> cross k s"
    by (simp only: assms)
  then show ?thesis by (simp add: cross_def)
qed

lemma cross_col:
  assumes "cross k t = cross k s"
  shows "(grid t x k \<noteq> None) = (grid s x k \<noteq> None)"
proof -
  have "(x, k) \<in> cross k t \<longleftrightarrow> (x, k) \<in> cross k s"
    by (simp only: assms)
  then show ?thesis by (simp add: cross_def)
qed

lemma sum_indicator_card:
  "(\<Sum>j = Suc k..<n. if P j then c else 0) = card {j. k < j \<and> j < n \<and> P j} * (c::nat)"
proof -
  have eq: "{j. k < j \<and> j < n \<and> P j} = {j \<in> {Suc k..<n}. P j}" by auto
  have "(\<Sum>j = Suc k..<n. if P j then c else 0) = sum (\<lambda>j. c) {j \<in> {Suc k..<n}. P j}"
    by (rule sum.inter_filter [symmetric]) simp
  also have "\<dots> = card {j \<in> {Suc k..<n}. P j} * c"
    by simp
  finally show ?thesis by (simp only: eq)
qed

lemma card_pairs:
  "card {(i, j). k < i \<and> i < n \<and> k < j \<and> j < n \<and> P i \<and> Q j}
   = card {i. k < i \<and> i < n \<and> P i} * card {j. k < j \<and> j < (n::nat) \<and> Q j}"
proof -
  have "{(i, j). k < i \<and> i < n \<and> k < j \<and> j < n \<and> P i \<and> Q j}
        = {i. k < i \<and> i < n \<and> P i} \<times> {j. k < j \<and> j < n \<and> Q j}"
    by auto
  then show ?thesis by (simp add: card_cartesian_product)
qed

lemma par_pass_count:
  fixes s :: "('a :: {zero,minus,times,inverse}) state"
  assumes k: "k < n" and run: "sparselu_par_call_pass ok n b k s = Inr s'"
  shows "task_count kd k' (trace s')
         = task_count kd k' (trace s) + (if k' = k then pass_tasks n k s kd else 0)"
proof -
  let ?m = "\<lambda>t :: 'a state. task_count kd k' (trace t)"
  let ?I = "\<lambda>t :: 'a state. cross k t = cross k s"
  let ?c = "\<lambda>kd0. if kd0 = kd \<and> k = k' then 1 else 0 :: nat"
  let ?fwd = "\<lambda>jj (t :: 'a state).
       if grid t k jj \<noteq> None then fwd_call b k jj (submit FWD k k jj t) else Inr t"
  let ?bdiv = "\<lambda>ii (t :: 'a state).
       if grid t ii k \<noteq> None then bdiv_call b k ii (submit BDIV k ii k t) else Inr t"
  let ?bmod = "\<lambda>ii jj (t :: 'a state). if grid t k jj \<noteq> None
       then bindE (if grid t ii jj = None then fill_in ok b Issuing_thread ii jj t else Inr t)
              (\<lambda>t. bmod_call b k ii jj (submit BMOD k ii jj t))
       else Inr t"
  let ?rows = "\<lambda>ii (t :: 'a state).
       if grid t ii k \<noteq> None then for_loopE (k + 1) n (?bmod ii) t else Inr t"
  let ?wf = "\<lambda>j. if grid s k j \<noteq> None then ?c FWD else 0"
  let ?wb = "\<lambda>i. if grid s i k \<noteq> None then ?c BDIV else 0"
  let ?wm = "\<lambda>j. if grid s k j \<noteq> None then ?c BMOD else 0"
  let ?wr = "\<lambda>i. if grid s i k \<noteq> None then sum ?wm {k + 1..<n} else 0"
  from run obtain s1 s2 s3 where
    s1: "lu0_call b k (submit LU0 k k k s) = Inr s1"
    and s2: "for_loopE (k + 1) n ?fwd s1 = Inr s2"
    and s3: "for_loopE (k + 1) n ?bdiv s2 = Inr s3"
    and s': "for_loopE (k + 1) n ?rows s3 = Inr s'"
    unfolding sparselu_par_call_pass_def by (auto simp: bindE_Inr_iff)
  have kn: "k + 1 \<le> n" using k by simp
  have 1: "?I s1 \<and> ?m s1 = ?m s + ?c LU0"
  proof -
    from lu0_call_cases [where b = b and k = k and s = "submit LU0 k k k s"] s1
    have "slots s1 = slots s" "trace s1 = trace s @ [Submit LU0 k k k]" by simp_all
    with cross_same [of s1 s k] show ?thesis by simp
  qed
  have 2: "?I s2 \<and> ?m s2 = ?m s1 + sum ?wf {k + 1..<n}"
    using s2 kn
  proof (rule for_loopE_count [where I = ?I and m = ?m])
    show "?I s1" using 1 by simp
  next
    fix j and t t' :: "'a state" assume I: "?I t" and step: "?fwd j t = Inr t'"
    show "?I t' \<and> ?m t' = ?m t + ?wf j"
    proof (cases "grid t k j \<noteq> None")
      case False
      with cross_row [OF I, of j] have "grid s k j = None" by blast
      with False step I show ?thesis by simp
    next
      case True
      with cross_row [OF I, of j] have held: "grid s k j \<noteq> None" by blast
      from True step have "fwd_call b k j (submit FWD k k j t) = Inr t'" by simp
      with fwd_call_cases [where b = b and k = k and j = j and s = "submit FWD k k j t"]
      have "slots t' = slots t" "trace t' = trace t @ [Submit FWD k k j]" by simp_all
      with held I cross_same [of t' t k] show ?thesis by simp
    qed
  qed
  have 3: "?I s3 \<and> ?m s3 = ?m s2 + sum ?wb {k + 1..<n}"
    using s3 kn
  proof (rule for_loopE_count [where I = ?I and m = ?m])
    show "?I s2" using 2 by simp
  next
    fix i and t t' :: "'a state" assume I: "?I t" and step: "?bdiv i t = Inr t'"
    show "?I t' \<and> ?m t' = ?m t + ?wb i"
    proof (cases "grid t i k \<noteq> None")
      case False
      with cross_col [OF I, of i] have "grid s i k = None" by blast
      with False step I show ?thesis by simp
    next
      case True
      with cross_col [OF I, of i] have held: "grid s i k \<noteq> None" by blast
      from True step have "bdiv_call b k i (submit BDIV k i k t) = Inr t'" by simp
      with bdiv_call_cases [where b = b and k = k and i = i and s = "submit BDIV k i k t"]
      have "slots t' = slots t" "trace t' = trace t @ [Submit BDIV k i k]" by simp_all
      with held I cross_same [of t' t k] show ?thesis by simp
    qed
  qed
  have cell: "?I u' \<and> ?m u' = ?m u + ?wm j"
    if I: "?I u" and ki: "k < i" and kj: "k + 1 \<le> j" and step: "?bmod i j u = Inr u'"
    for i j and u u' :: "'a state"
  proof (cases "grid u k j \<noteq> None")
    case False
    with cross_row [OF I, of j] have "grid s k j = None" by blast
    with False step I show ?thesis by simp
  next
    case True
    with cross_row [OF I, of j] have held: "grid s k j \<noteq> None" by blast
    from True step obtain v where
      v: "(if grid u i j = None then fill_in ok b Issuing_thread i j u else Inr u) = Inr v"
      and u': "bmod_call b k i j (submit BMOD k i j v) = Inr u'"
      by (auto simp: bindE_Inr_iff)
    have Iv: "?I v \<and> ?m v = ?m u"
    proof (cases "grid u i j = None")
      case False
      with v I show ?thesis by simp
    next
      case True
      with v fill_in_cases [where ok = ok and b = b and who = Issuing_thread and i = i and j = j and s = u]
      have "slots v = insert (i, j) (slots u)" "trace v = trace u @ [Alloc Issuing_thread i j]"
        by simp_all
      with I ki kj cross_insert [of v i j u k] show ?thesis by simp
    qed
    from u' bmod_call_cases [where b = b and k = k and i = i and j = j and s = "submit BMOD k i j v"]
    have "slots u' = slots v" "trace u' = trace v @ [Submit BMOD k i j]" by simp_all
    with Iv held cross_same [of u' v k] show ?thesis by simp
  qed
  have 4: "?I s' \<and> ?m s' = ?m s3 + sum ?wr {k + 1..<n}"
    using s' kn
  proof (rule for_loopE_count [where I = ?I and m = ?m])
    show "?I s3" using 3 by simp
  next
    fix i and t t' :: "'a state"
    assume I: "?I t" and ki: "k + 1 \<le> i" and step: "?rows i t = Inr t'"
    show "?I t' \<and> ?m t' = ?m t + ?wr i"
    proof (cases "grid t i k \<noteq> None")
      case False
      with cross_col [OF I, of i] have "grid s i k = None" by blast
      with False step I show ?thesis by simp
    next
      case True
      with cross_col [OF I, of i] have held: "grid s i k \<noteq> None" by blast
      from True step have inner: "for_loopE (k + 1) n (?bmod i) t = Inr t'" by simp
      have "?I t' \<and> ?m t' = ?m t + sum ?wm {k + 1..<n}"
        using inner kn I
      proof (rule for_loopE_count [where I = ?I and m = ?m])
        fix j and u u' :: "'a state"
        assume "?I u" "k + 1 \<le> j" "?bmod i j u = Inr u'"
        with ki show "?I u' \<and> ?m u' = ?m u + ?wm j"
          by (intro cell [of u i j u']) simp_all
      qed
      with held show ?thesis by simp
    qed
  qed
  from 1 2 3 4 have total:
    "?m s' = ?m s + ?c LU0 + sum ?wf {k + 1..<n} + sum ?wb {k + 1..<n} + sum ?wr {k + 1..<n}"
    by simp
  show ?thesis
  proof (cases "k' = k")
    case False
    with total show ?thesis by auto
  next
    case True
    with total show ?thesis
      by (cases kd) (simp_all add: pass_tasks_def sum_indicator_card card_pairs)
  qed
qed

section \<open>Reading a trace\<close>

lemma alloc_count_zero_iff: "alloc_count i j evs = 0 \<longleftrightarrow> (i, j) \<notin> allocated evs"
  by (induction evs rule: allocated.induct) (auto simp: alloc_count_def)

lemma orderly_disjoint: "orderly S evs \<Longrightarrow> allocated evs \<inter> S = {}"
  by (induction S evs rule: orderly.induct) auto

lemma orderly_alloc_count: "orderly S evs \<Longrightarrow> alloc_count i j evs \<le> 1"
proof (induction S evs rule: orderly.induct)
  case (2 S who i' j' evs)
  then have rest: "orderly (insert (i', j') S) evs" by simp
  show ?case
  proof (cases "i' = i \<and> j' = j")
    case True
    with orderly_disjoint [OF rest] have "(i, j) \<notin> allocated evs" by auto
    then have "alloc_count i j evs = 0" by (simp add: alloc_count_zero_iff)
    with True show ?thesis by (simp add: alloc_count_def)
  next
    case False
    with 2 show ?thesis by (auto simp: alloc_count_def)
  qed
qed (auto simp: alloc_count_def)

lemma orderly_actor: "orderly S evs \<Longrightarrow> Alloc who i j \<in> set evs \<Longrightarrow> who = Issuing_thread"
  by (induction S evs rule: orderly.induct) auto

lemma allocated_in_set: "(i, j) \<in> allocated evs \<Longrightarrow> \<exists>who. Alloc who i j \<in> set evs"
  by (induction evs rule: allocated.induct) auto

lemma orderly_bmod_target:
  assumes "orderly S (pre @ Submit BMOD k i j # post)"
  shows "(i, j) \<in> S \<or> Alloc Issuing_thread i j \<in> set pre"
proof -
  from assms have pre: "orderly S pre" and "(i, j) \<in> S \<union> allocated pre"
    by (simp_all add: orderly_append)
  then show ?thesis
    using allocated_in_set [of i j pre] orderly_actor [OF pre] by blast
qed

lemma in_bmod_body_append:
  "in_bmod_body xs \<Longrightarrow> in_bmod_body ys \<Longrightarrow> in_bmod_body (xs @ ys)"
proof (induction xs rule: in_bmod_body.induct)
qed (auto elim: in_bmod_body.elims)

lemma in_bmod_body_Submit_Alloc [simp]:
  "in_bmod_body (Submit kd k i j # Alloc who i' j' # evs)
   = (kd = BMOD \<and> who = Task_body \<and> i' = i \<and> j' = j \<and> in_bmod_body evs)"
  by (cases kd) simp_all

lemma in_bmod_body_alloc:
  "in_bmod_body (pre @ Alloc who i j # post) \<Longrightarrow>
   who = Task_body \<and> (\<exists>k pre'. pre = pre' @ [Submit BMOD k i j])"
proof (induction pre rule: in_bmod_body.induct)
  case (2 k i0 j0 w i' j' evs)
  then have "who = Task_body \<and> (\<exists>k pre'. evs = pre' @ [Submit BMOD k i j])" by simp
  then obtain k' pre' where "who = Task_body" "evs = pre' @ [Submit BMOD k' i j]" by blast
  then show ?case
    by (intro conjI exI [of _ k'] exI [of _ "Submit BMOD k i0 j0 # Alloc w i' j' # pre'"]) simp_all
qed (auto simp: Cons_eq_append_conv)

lemma follows_task_refl: "follows_task s s"
  unfolding follows_task_def by (intro exI [of _ "[]"]) simp

lemma follows_task_trans:
  assumes "follows_task s t" and "follows_task t u"
  shows "follows_task s u"
proof -
  from assms obtain xs ys where "trace t = trace s @ xs" "in_bmod_body xs"
    "trace u = trace t @ ys" "in_bmod_body ys"
    unfolding follows_task_def by blast
  then show ?thesis
    unfolding follows_task_def
    by (intro exI [of _ "xs @ ys"]) (simp add: in_bmod_body_append)
qed

lemma follows_task_same: "trace t = trace s \<Longrightarrow> follows_task s t"
  unfolding follows_task_def by (intro exI [of _ "[]"]) simp

lemma follows_task_events:
  "trace t = trace s @ evs \<Longrightarrow> in_bmod_body evs \<Longrightarrow> follows_task s t"
  unfolding follows_task_def by blast

section \<open>The tasks of a whole run\<close>

lemma pass_count_kinds:
  "pass_count k evs = task_count LU0 k evs + task_count FWD k evs
                      + task_count BDIV k evs + task_count BMOD k evs"
proof (induction evs)
  case Nil
  show ?case by (simp add: pass_count_def)
next
  case (Cons e evs)
  show ?case
  proof (cases e)
    case (Submit kd k' i j)
    with Cons show ?thesis
      by (cases kd) (simp_all add: pass_count_def task_count_def)
  next
    case (Alloc who i j)
    with Cons show ?thesis by (simp add: pass_count_def task_count_def)
  qed
qed

lemma par_call_count:
  fixes s :: "('a :: {zero,minus,times,inverse}) state"
  assumes run: "sparselu_par_call ok n b s = Inr s'" and k: "k < n"
    and sk: "for_loopE 0 k (sparselu_par_call_pass ok n b) s = Inr sk"
  shows "task_count kd k (trace s') = task_count kd k (trace s) + pass_tasks n k sk kd"
proof -
  let ?pass = "sparselu_par_call_pass ok n b :: nat \<Rightarrow> 'a state \<Rightarrow> error + 'a state"
  let ?m = "\<lambda>t :: 'a state. task_count kd k (trace t)"
  from run have "bindE (for_loopE 0 k ?pass s) (for_loopE k n ?pass) = Inr s'"
    unfolding sparselu_par_call_def using for_loopE_split [of 0 k n ?pass s] k by simp
  with sk have "for_loopE k n ?pass sk = Inr s'" by simp
  with k obtain sk1 where sk1: "?pass k sk = Inr sk1"
    and rest: "for_loopE (Suc k) n ?pass sk1 = Inr s'"
    by (auto simp: for_loopE_step bindE_Inr_iff)
  have before: "True \<and> ?m sk = ?m s + sum (\<lambda>i. 0) {0..<k}"
    using sk
  proof (rule for_loopE_count [where I = "\<lambda>t. True" and m = ?m])
    fix i and t t' :: "'a state" assume i: "i < k" and "?pass i t = Inr t'"
    with k par_pass_count [of i n ok b t t' kd k] show "True \<and> ?m t' = ?m t + 0" by simp
  qed simp_all
  have after: "True \<and> ?m s' = ?m sk1 + sum (\<lambda>i. 0) {Suc k..<n}"
    using rest
  proof (rule for_loopE_count [where I = "\<lambda>t. True" and m = ?m])
    fix i and t t' :: "'a state" assume i: "Suc k \<le> i" "i < n" and "?pass i t = Inr t'"
    with par_pass_count [of i n ok b t t' kd k] show "True \<and> ?m t' = ?m t + 0" by simp
  qed (use k in simp_all)
  from par_pass_count [OF k sk1, of kd k] before after show ?thesis by simp
qed

lemma par_call_fill_example:
  "\<exists>s'. sparselu_par_call (\<lambda>c. True) 3 1 fill_example = Inr s' \<and>
     trace s' = [Submit LU0 0 0 0, Submit FWD 0 0 2, Submit BDIV 0 1 0, Alloc Issuing_thread 1 2,
                 Submit BMOD 0 1 2, Submit LU0 1 1 1, Submit FWD 1 1 2, Submit LU0 2 2 2]
     \<and> grid s' 1 2 = Some [[- 12]]"
  by (simp add: sparselu_par_call_def sparselu_par_call_pass_def for_loopE_step for_loopE_empty
      fill_example_def lu0_call_def fwd_call_def bdiv_call_def bmod_call_def fill_in_def
      allocate_clean_block_eq submit_def set_slot_def eval_nat_numeral
      lu0_def bdiv_def bmod_def fwd_def for_loop_fold_fun get_def put_def Let_def)

lemma par_call_task_fill_example:
  "\<exists>s'. sparselu_par_call_task (\<lambda>c. True) 3 1 fill_example = Inr s' \<and>
     trace s' = [Submit FWD 0 0 2, Submit BDIV 0 1 0, Submit BMOD 0 1 2, Alloc Task_body 1 2,
                 Submit FWD 1 1 2]"
  by (simp add: sparselu_par_call_task_def sparselu_par_call_task_pass_def for_loopE_step
      for_loopE_empty fill_example_def lu0_call_def fwd_call_def bdiv_call_def bmod_call_def
      fill_in_def allocate_clean_block_eq submit_def set_slot_def eval_nat_numeral Let_def)

section \<open>The trace of the task version\<close>

lemma call_follows_task:
  "lu0_call b k s = Inr t \<Longrightarrow> follows_task s t"
  "fwd_call b k j s = Inr t \<Longrightarrow> follows_task s t"
  "bdiv_call b k i s = Inr t \<Longrightarrow> follows_task s t"
  "bmod_call b k i j s = Inr t \<Longrightarrow> follows_task s t"
  using lu0_call_cases [where b = b and k = k and s = s]
    fwd_call_cases [where b = b and k = k and j = j and s = s]
    bdiv_call_cases [where b = b and k = k and i = i and s = s]
    bmod_call_cases [where b = b and k = k and i = i and j = j and s = s]
  by (auto intro: follows_task_same)

lemma task_bmod_follows:
  assumes "(let s = submit BMOD k i j t in
            bindE (if grid s i j = None then fill_in ok b Task_body i j s else Inr s)
              (bmod_call b k i j)) = Inr t'"
  shows "follows_task t t'"
proof -
  from assms obtain u where
    u: "(if grid t i j = None then fill_in ok b Task_body i j (submit BMOD k i j t)
         else Inr (submit BMOD k i j t)) = Inr u"
    and t': "bmod_call b k i j u = Inr t'"
    by (auto simp: bindE_Inr_iff Let_def)
  have "follows_task t u"
  proof (cases "grid t i j = None")
    case True
    with u fill_in_cases [where ok = ok and b = b and who = Task_body and i = i and j = j
        and s = "submit BMOD k i j t"]
    have "trace u = trace t @ [Submit BMOD k i j, Alloc Task_body i j]" by simp
    then show ?thesis by (rule follows_task_events) simp
  next
    case False
    with u have "trace u = trace t @ [Submit BMOD k i j]" by auto
    then show ?thesis by (rule follows_task_events) simp
  qed
  with call_follows_task(4) [OF t'] show ?thesis by (rule follows_task_trans [rotated])
qed

lemma par_task_pass_follows:
  fixes s :: "('a :: {zero,minus,times,inverse}) state"
  assumes run: "sparselu_par_call_task_pass ok n b k s = Inr s'"
  shows "follows_task s s'"
proof -
  let ?fwd = "\<lambda>jj (t :: 'a state).
       if grid t k jj \<noteq> None then fwd_call b k jj (submit FWD k k jj t) else Inr t"
  let ?bdiv = "\<lambda>ii (t :: 'a state).
       if grid t ii k \<noteq> None then bdiv_call b k ii (submit BDIV k ii k t) else Inr t"
  let ?bmod = "\<lambda>ii jj (t :: 'a state). if grid t k jj \<noteq> None
       then (let s = submit BMOD k ii jj t in
             bindE (if grid s ii jj = None then fill_in ok b Task_body ii jj s else Inr s)
               (bmod_call b k ii jj))
       else Inr t"
  let ?rows = "\<lambda>ii (t :: 'a state).
       if grid t ii k \<noteq> None then for_loopE (k + 1) n (?bmod ii) t else Inr t"
  from run obtain s1 s2 s3 where
    s1: "lu0_call b k s = Inr s1"
    and s2: "for_loopE (k + 1) n ?fwd s1 = Inr s2"
    and s3: "for_loopE (k + 1) n ?bdiv s2 = Inr s3"
    and s': "for_loopE (k + 1) n ?rows s3 = Inr s'"
    unfolding sparselu_par_call_task_pass_def by (auto simp: bindE_Inr_iff)
  have sub: "follows_task t (submit kd k i j t)" if "kd \<noteq> BMOD" for kd i j and t :: "'a state"
    using that by (intro follows_task_events [where evs = "[Submit kd k i j]"]) (cases kd; simp)+
  have 1: "follows_task s s1" using s1 by (rule call_follows_task)
  have 2: "follows_task s1 s2"
    using follows_task_refl follows_task_trans s2
  proof (rule for_loopE_preorder)
    fix j and t t' :: "'a state" assume step: "?fwd j t = Inr t'"
    show "follows_task t t'"
    proof (cases "grid t k j \<noteq> None")
      case False
      with step show ?thesis by (simp add: follows_task_refl)
    next
      case True
      with step have "fwd_call b k j (submit FWD k k j t) = Inr t'" by simp
      from sub [of FWD t k j] call_follows_task(2) [OF this] show ?thesis
        by (simp add: follows_task_trans)
    qed
  qed
  have 3: "follows_task s2 s3"
    using follows_task_refl follows_task_trans s3
  proof (rule for_loopE_preorder)
    fix i and t t' :: "'a state" assume step: "?bdiv i t = Inr t'"
    show "follows_task t t'"
    proof (cases "grid t i k \<noteq> None")
      case False
      with step show ?thesis by (simp add: follows_task_refl)
    next
      case True
      with step have "bdiv_call b k i (submit BDIV k i k t) = Inr t'" by simp
      from sub [of BDIV t i k] call_follows_task(3) [OF this] show ?thesis
        by (simp add: follows_task_trans)
    qed
  qed
  have 4: "follows_task s3 s'"
    using follows_task_refl follows_task_trans s'
  proof (rule for_loopE_preorder)
    fix i and t t' :: "'a state" assume row: "?rows i t = Inr t'"
    show "follows_task t t'"
    proof (cases "grid t i k \<noteq> None")
      case False
      with row show ?thesis by (simp add: follows_task_refl)
    next
      case True
      with row have "for_loopE (k + 1) n (?bmod i) t = Inr t'" by simp
      with follows_task_refl follows_task_trans show ?thesis
      proof (rule for_loopE_preorder)
        fix j and u u' :: "'a state" assume cell: "?bmod i j u = Inr u'"
        show "follows_task u u'"
        proof (cases "grid u k j \<noteq> None")
          case False
          with cell show ?thesis by (simp add: follows_task_refl)
        next
          case True
          with cell have
            "(let s = submit BMOD k i j u in
              bindE (if grid s i j = None then fill_in ok b Task_body i j s else Inr s)
                (bmod_call b k i j)) = Inr u'"
            by simp
          then show ?thesis by (rule task_bmod_follows)
        qed
      qed
    qed
  qed
  from 1 2 3 4 show ?thesis by (blast intro: follows_task_trans)
qed

lemma par_call_task_follows:
  fixes s :: "('a :: {zero,minus,times,inverse}) state"
  assumes "sparselu_par_call_task ok n b s = Inr s'"
  shows "follows_task s s'"
  using follows_task_refl follows_task_trans assms [unfolded sparselu_par_call_task_def]
proof (rule for_loopE_preorder)
  fix k and t t' :: "'a state" assume "sparselu_par_call_task_pass ok n b k t = Inr t'"
  then show "follows_task t t'" by (rule par_task_pass_follows)
qed

section \<open>Task counts and allocations of a run\<close>

text \<open>
  C2. Let \<open>sk\<close> be the state at the start of pass \<open>k\<close> of \<open>sparselu_par_call\<close>,
  after the fill-in of the passes before. In a run that returns, the tasks created
  in pass \<open>k\<close> are one \<open>lu0\<close>, one \<open>fwd\<close> for each \<open>j > k\<close> with slot \<open>(k, j)\<close> held
  in \<open>sk\<close>, one \<open>bdiv\<close> for each \<open>i > k\<close> with slot \<open>(i, k)\<close> held, and one \<open>bmod\<close>
  for each pair of them: \<open>1 + |{j}| + |{i}| + |{(i, j)}|\<close> tasks in all, for every
  \<open>matrix_size\<close> and \<open>submatrix_size\<close>.
\<close>

theorem tasks_created_in_pass:
  fixes s :: "('a :: {zero,minus,times,inverse}) state"
  assumes run: "sparselu_par_call ok n b s = Inr s'" and k: "k < n"
    and sk: "for_loopE 0 k (sparselu_par_call_pass ok n b) s = Inr sk"
  shows "pass_count k (trace s') = pass_count k (trace s) + 1
           + card {j. k < j \<and> j < n \<and> grid sk k j \<noteq> None}
           + card {i. k < i \<and> i < n \<and> grid sk i k \<noteq> None}
           + card {(i, j). k < i \<and> i < n \<and> k < j \<and> j < n
                    \<and> grid sk i k \<noteq> None \<and> grid sk k j \<noteq> None}
     \<and> task_count LU0 k (trace s') = task_count LU0 k (trace s) + 1
     \<and> task_count FWD k (trace s') = task_count FWD k (trace s)
           + card {j. k < j \<and> j < n \<and> grid sk k j \<noteq> None}
     \<and> task_count BDIV k (trace s') = task_count BDIV k (trace s)
           + card {i. k < i \<and> i < n \<and> grid sk i k \<noteq> None}
     \<and> task_count BMOD k (trace s') = task_count BMOD k (trace s)
           + card {(i, j). k < i \<and> i < n \<and> k < j \<and> j < n
                    \<and> grid sk i k \<noteq> None \<and> grid sk k j \<noteq> None}"
  using par_call_count [OF run k sk, of LU0] par_call_count [OF run k sk, of FWD]
    par_call_count [OF run k sk, of BDIV] par_call_count [OF run k sk, of BMOD]
  by (simp add: pass_count_kinds pass_tasks_def)

theorem tasks_created_in_pass_witness:
  "\<exists>s'. sparselu_par_call (\<lambda>c. True) 3 1 fill_example = Inr s'
      \<and> for_loopE 0 0 (sparselu_par_call_pass (\<lambda>c. True) 3 1) fill_example = Inr fill_example
      \<and> pass_count 0 (trace s') = 4
      \<and> 1 + card {j. 0 < j \<and> j < 3 \<and> grid fill_example 0 j \<noteq> None}
          + card {i. 0 < i \<and> i < 3 \<and> grid fill_example i 0 \<noteq> None}
          + card {(i, j). 0 < i \<and> i < 3 \<and> 0 < j \<and> j < 3
                   \<and> grid fill_example i 0 \<noteq> None \<and> grid fill_example 0 j \<noteq> None} = 4
      \<and> task_count BMOD 0 (trace s') = 1"
proof -
  obtain s' where run: "sparselu_par_call (\<lambda>c. True) 3 1 fill_example = Inr s'"
    and tr: "trace s' = [Submit LU0 0 0 0, Submit FWD 0 0 2, Submit BDIV 0 1 0,
               Alloc Issuing_thread 1 2, Submit BMOD 0 1 2, Submit LU0 1 1 1, Submit FWD 1 1 2,
               Submit LU0 2 2 2]"
    using par_call_fill_example by blast
  have sk: "for_loopE 0 0 (sparselu_par_call_pass (\<lambda>c. True) 3 1) fill_example = Inr fill_example"
    by (simp add: for_loopE_empty)
  have t0: "trace fill_example = []" by (simp add: fill_example_def)
  have pc: "pass_count 0 (trace s') = 4" and tc: "task_count BMOD 0 (trace s') = 1"
    by (simp_all add: tr pass_count_def task_count_def)
  from tasks_created_in_pass [OF run _ sk] pc
  have "1 + card {j. 0 < j \<and> j < 3 \<and> grid fill_example 0 j \<noteq> None}
          + card {i. 0 < i \<and> i < 3 \<and> grid fill_example i 0 \<noteq> None}
          + card {(i, j). 0 < i \<and> i < 3 \<and> 0 < j \<and> j < 3
                   \<and> grid fill_example i 0 \<noteq> None \<and> grid fill_example 0 j \<noteq> None} = 4"
    by (simp add: t0 pass_count_def)
  with run sk pc tc show ?thesis by blast
qed

text \<open>
  C7. In a run of \<open>sparselu_par_call\<close> that returns, from the start of any pass
  \<open>k\<close> on, every slot is allocated at most once, a slot that holds a tile is never
  allocated again, and it still holds a tile at the end. With \<open>k = 0\<close> this is the
  whole factorization; with \<open>k > 0\<close> it covers the tiles filled in by earlier
  passes. The only assignment to a slot is the fill-in, which the trace records.
\<close>

theorem slot_allocated_at_most_once:
  fixes s :: "('a :: {zero,minus,times,inverse}) state"
  assumes run: "sparselu_par_call ok n b s = Inr s'" and k: "k \<le> n"
    and sk: "for_loopE 0 k (sparselu_par_call_pass ok n b) s = Inr sk"
  shows "\<exists>evs. trace s' = trace sk @ evs \<and> alloc_count i j evs \<le> 1
           \<and> (grid sk i j \<noteq> None \<longrightarrow> alloc_count i j evs = 0 \<and> grid s' i j \<noteq> None)"
proof -
  let ?pass = "sparselu_par_call_pass ok n b :: nat \<Rightarrow> 'a state \<Rightarrow> error + 'a state"
  from run have "bindE (for_loopE 0 k ?pass s) (for_loopE k n ?pass) = Inr s'"
    unfolding sparselu_par_call_def using for_loopE_split [of 0 k n ?pass s] k by simp
  with sk have "for_loopE k n ?pass sk = Inr s'" by simp
  then have "follows sk s'" by (rule par_call_follows)
  then obtain evs where evs: "trace s' = trace sk @ evs"
    "slots s' = slots sk \<union> allocated evs" "orderly (slots sk) evs"
    unfolding follows_def by blast
  have "alloc_count i j evs = 0" if "grid sk i j \<noteq> None"
    using that orderly_disjoint [OF evs(3)] by (auto simp: alloc_count_zero_iff)
  moreover have "grid s' i j \<noteq> None" if "grid sk i j \<noteq> None"
    using that evs(2) held_mono [of sk s' i j] by simp
  ultimately show ?thesis
    using evs(1) orderly_alloc_count [OF evs(3), of i j] by blast
qed

theorem slot_allocated_at_most_once_witness:
  "\<exists>s'. sparselu_par_call (\<lambda>c. True) 3 1 fill_example = Inr s'
      \<and> for_loopE 0 0 (sparselu_par_call_pass (\<lambda>c. True) 3 1) fill_example = Inr fill_example
      \<and> alloc_count 1 2 (trace s') = 1
      \<and> grid fill_example 0 2 \<noteq> None \<and> alloc_count 0 2 (trace s') = 0 \<and> grid s' 0 2 \<noteq> None"
proof -
  obtain s' where run: "sparselu_par_call (\<lambda>c. True) 3 1 fill_example = Inr s'"
    and tr: "trace s' = [Submit LU0 0 0 0, Submit FWD 0 0 2, Submit BDIV 0 1 0,
               Alloc Issuing_thread 1 2, Submit BMOD 0 1 2, Submit LU0 1 1 1, Submit FWD 1 1 2,
               Submit LU0 2 2 2]"
    using par_call_fill_example by blast
  have sk: "for_loopE 0 0 (sparselu_par_call_pass (\<lambda>c. True) 3 1) fill_example = Inr fill_example"
    by (simp add: for_loopE_empty)
  have held: "grid fill_example 0 2 \<noteq> None" by (simp add: fill_example_def)
  from slot_allocated_at_most_once [OF run _ sk, of 0 2] held
  have "alloc_count 0 2 (trace s') = 0 \<and> grid s' 0 2 \<noteq> None"
    by (auto simp: fill_example_def)
  moreover have "alloc_count 1 2 (trace s') = 1"
    by (simp add: tr alloc_count_def)
  ultimately show ?thesis using run sk held by blast
qed

section \<open>Who fills a slot\<close>

text \<open>
  C6, as stated for both files, fails for \<^verbatim>\<open>sparselu-task.c\<close>: on the example
  matrix the block of slot \<open>(1, 2)\<close> is allocated by the body of the \<open>bmod\<close> task.
\<close>

theorem task_version_allocates_in_task_body:
  "\<exists>s'. sparselu_par_call_task (\<lambda>c. True) 3 1 fill_example = Inr s'
      \<and> Alloc Task_body 1 2 \<in> set (trace s')"
proof -
  obtain s' where "sparselu_par_call_task (\<lambda>c. True) 3 1 fill_example = Inr s'"
    "trace s' = [Submit FWD 0 0 2, Submit BDIV 0 1 0, Submit BMOD 0 1 2, Alloc Task_body 1 2,
                 Submit FWD 1 1 2]"
    using par_call_task_fill_example by blast
  then show ?thesis by simp
qed

text \<open>
  C6, amended. In \<open>sparselu_par_call\<close> of \<^verbatim>\<open>sparselu-task-dep.c\<close> every
  allocation is made by the thread that creates the tasks, and when a \<open>bmod\<close> task
  for \<open>(i, j)\<close> is created the slot holds a tile: it held one at the start, or
  the thread has allocated it before. A block that \<open>fill_in\<close> installs is
  \<open>submatrix_size \<times> submatrix_size\<close> zeros. In \<open>sparselu_par_call\<close> of
  \<^verbatim>\<open>sparselu-task.c\<close> every allocation is made by the body of a \<open>bmod\<close> task,
  right after the creation of that task.
\<close>

theorem fill_in_before_bmod_task:
  fixes s u t :: "('a :: {zero,minus,times,inverse}) state"
  shows
  "(sparselu_par_call ok n b s = Inr s' \<longrightarrow>
      (\<exists>evs. trace s' = trace s @ evs
         \<and> (\<forall>who i j. Alloc who i j \<in> set evs \<longrightarrow> who = Issuing_thread)
         \<and> (\<forall>pre k i j post. evs = pre @ Submit BMOD k i j # post \<longrightarrow>
               grid s i j \<noteq> None \<or> Alloc Issuing_thread i j \<in> set pre)))
   \<and> (fill_in ok b who i j t = Inr t' \<longrightarrow>
        grid t' i j = Some (replicate b (replicate b 0)))
   \<and> (sparselu_par_call_task ok n b u = Inr u' \<longrightarrow>
      (\<exists>evs. trace u' = trace u @ evs
         \<and> (\<forall>pre who i j post. evs = pre @ Alloc who i j # post \<longrightarrow>
               who = Task_body \<and> (\<exists>k pre'. pre = pre' @ [Submit BMOD k i j]))))"
proof (intro conjI impI)
  assume "sparselu_par_call ok n b s = Inr s'"
  then have "follows s s'"
    unfolding sparselu_par_call_def by (rule par_call_follows)
  then obtain evs where evs: "trace s' = trace s @ evs" "orderly (slots s) evs"
    unfolding follows_def by blast
  have "who = Issuing_thread" if "Alloc who i j \<in> set evs" for who i j
    using orderly_actor [OF evs(2) that] .
  moreover have "grid s i j \<noteq> None \<or> Alloc Issuing_thread i j \<in> set pre"
    if "evs = pre @ Submit BMOD k i j # post" for pre k i j post
    using orderly_bmod_target [of "slots s" pre k i j post] evs(2) that by simp
  ultimately show "\<exists>evs. trace s' = trace s @ evs
         \<and> (\<forall>who i j. Alloc who i j \<in> set evs \<longrightarrow> who = Issuing_thread)
         \<and> (\<forall>pre k i j post. evs = pre @ Submit BMOD k i j # post \<longrightarrow>
               grid s i j \<noteq> None \<or> Alloc Issuing_thread i j \<in> set pre)"
    using evs(1) by blast
next
  assume "fill_in ok b who i j t = Inr t'"
  with fill_in_cases [where ok = ok and b = b and who = who and i = i and j = j and s = t]
  show "grid t' i j = Some (replicate b (replicate b 0))"
    by (simp add: set_slot_def)
next
  assume "sparselu_par_call_task ok n b u = Inr u'"
  then have "follows_task u u'" by (rule par_call_task_follows)
  then obtain evs where evs: "trace u' = trace u @ evs" "in_bmod_body evs"
    unfolding follows_task_def by blast
  have "who = Task_body \<and> (\<exists>k pre'. pre = pre' @ [Submit BMOD k i j])"
    if "evs = pre @ Alloc who i j # post" for pre who i j post
    using in_bmod_body_alloc [of pre who i j post] evs(2) that by simp
  with evs(1) show "\<exists>evs. trace u' = trace u @ evs
         \<and> (\<forall>pre who i j post. evs = pre @ Alloc who i j # post \<longrightarrow>
               who = Task_body \<and> (\<exists>k pre'. pre = pre' @ [Submit BMOD k i j]))"
    by blast
qed

theorem fill_in_before_bmod_task_witness:
  "\<exists>s' t' u'. sparselu_par_call (\<lambda>c. True) 3 1 fill_example = Inr s'
      \<and> fill_in (\<lambda>c. True) 1 Issuing_thread 1 2 fill_example = Inr t'
      \<and> sparselu_par_call_task (\<lambda>c. True) 3 1 fill_example = Inr u'
      \<and> trace s' = [Submit LU0 0 0 0, Submit FWD 0 0 2, Submit BDIV 0 1 0] @
                   Alloc Issuing_thread 1 2 # Submit BMOD 0 1 2 #
                   [Submit LU0 1 1 1, Submit FWD 1 1 2, Submit LU0 2 2 2]
      \<and> grid t' 1 2 = Some [[0]]
      \<and> trace u' = [Submit FWD 0 0 2, Submit BDIV 0 1 0, Submit BMOD 0 1 2] @
                   Alloc Task_body 1 2 # [Submit FWD 1 1 2]"
proof -
  obtain s' where s': "sparselu_par_call (\<lambda>c. True) 3 1 fill_example = Inr s'"
    and trs: "trace s' = [Submit LU0 0 0 0, Submit FWD 0 0 2, Submit BDIV 0 1 0,
               Alloc Issuing_thread 1 2, Submit BMOD 0 1 2, Submit LU0 1 1 1, Submit FWD 1 1 2,
               Submit LU0 2 2 2]"
    using par_call_fill_example by blast
  obtain u' where u': "sparselu_par_call_task (\<lambda>c. True) 3 1 fill_example = Inr u'"
    and tru: "trace u' = [Submit FWD 0 0 2, Submit BDIV 0 1 0, Submit BMOD 0 1 2,
               Alloc Task_body 1 2, Submit FWD 1 1 2]"
    using par_call_task_fill_example by blast
  obtain t' :: "rat state" where t': "fill_in (\<lambda>c. True) 1 Issuing_thread 1 2 fill_example = Inr t'"
    by (simp add: fill_in_def allocate_clean_block_eq)
  from fill_in_before_bmod_task [of "\<lambda>c. True" 3 1 fill_example s' Issuing_thread 1 2
      fill_example t' fill_example u'] s' t' u'
  have "grid t' 1 2 = Some [[0]]" by simp
  with s' t' u' trs tru show ?thesis by (intro exI [of _ s'] exI [of _ t'] exI [of _ u']) simp
qed

section \<open>Failed allocations\<close>

lemma bench_rows_eq:
  "for_loopE 0 n (\<lambda>i c. if \<not> ok c then Inl (Exit 101 bench_msg) else Inr (Suc c)) c0 =
     (if \<exists>m. c0 \<le> m \<and> m < c0 + n \<and> \<not> ok m then Inl (Exit 101 bench_msg) else Inr (c0 + n))"
proof -
  let ?f = "\<lambda>(i::nat) c. if \<not> ok c then Inl (Exit 101 bench_msg) else Inr (Suc c)"
  let ?J = "\<lambda>i c. c = c0 + i \<and> (\<forall>m. c0 \<le> m \<and> m < c0 + i \<longrightarrow> ok m)"
  let ?E = "\<lambda>e. e = Exit 101 bench_msg \<and> (\<exists>m. c0 \<le> m \<and> m < c0 + n \<and> \<not> ok m)"
  have "case for_loopE 0 n ?f c0 of Inl e \<Rightarrow> ?E e | Inr c' \<Rightarrow> ?J n c'"
  proof (rule for_loopE_rule [where J = ?J and E = ?E])
    fix i c assume i: "i < n" and J: "?J i c"
    show "case ?f i c of Inl e \<Rightarrow> ?E e | Inr c' \<Rightarrow> ?J (Suc i) c'"
    proof (cases "ok c")
      case False
      with i J show ?thesis by (auto intro!: exI [of _ "c0 + i"])
    next
      case True
      with J show ?thesis by (auto simp: less_Suc_eq)
    qed
  qed auto
  then show ?thesis by (auto split: sum.splits)
qed

lemma genmat_task_mallocs:
  "case genmat_task ok b ii jj (s, v) of
     Inl e \<Rightarrow> e = Exit 101 block_msg \<and> (\<exists>m\<ge>mallocs s. \<not> ok m)
   | Inr (s', v') \<Rightarrow> mallocs s \<le> mallocs s'
       \<and> (\<forall>m. mallocs s \<le> m \<and> m < mallocs s' \<longrightarrow> ok m)"
proof (cases "null_entry ii jj")
  case True
  then show ?thesis by (auto simp: genmat_task_def)
next
  case False
  show ?thesis
  proof (cases "\<exists>m. mallocs s \<le> m \<and> m \<le> mallocs s + b \<and> \<not> ok m")
    case True
    with False show ?thesis
      by (auto simp: genmat_task_def allocate_clean_block_eq)
  next
    case ok: False
    then have "\<forall>m. mallocs s \<le> m \<and> m < Suc (mallocs s + b) \<longrightarrow> ok m"
      by (auto simp: less_Suc_eq_le)
    with False ok show ?thesis
      by (auto simp: genmat_task_def allocate_clean_block_eq split: prod.splits)
  qed
qed

lemma genmat_loops_mallocs:
  "case genmat_loops sh ok n b s of
     Inl e \<Rightarrow> e = Exit 101 block_msg \<and> (\<exists>m\<ge>mallocs s. \<not> ok m)
   | Inr s' \<Rightarrow> mallocs s \<le> mallocs s'
       \<and> (\<forall>m. mallocs s \<le> m \<and> m < mallocs s' \<longrightarrow> ok m)"
proof -
  let ?body = "\<lambda>ii jj (sv :: rat state \<times> int).
      case sv of (s, init_val) \<Rightarrow>
        bindE (genmat_task ok b ii jj (s, init_val))
          (\<lambda>(s, task_init_val). Inr (s, if sh then task_init_val else init_val))"
  let ?E = "\<lambda>e. e = Exit 101 block_msg \<and> (\<exists>m\<ge>mallocs s. \<not> ok m)"
  let ?J = "\<lambda>(i::nat) (sv :: rat state \<times> int). mallocs s \<le> mallocs (fst sv)
       \<and> (\<forall>m. mallocs s \<le> m \<and> m < mallocs (fst sv) \<longrightarrow> ok m)"
  have cell: "case ?body ii jj sv of Inl e \<Rightarrow> ?E e | Inr sv' \<Rightarrow> ?J 0 sv'"
    if "?J 0 sv" for ii jj sv
  proof -
    obtain t v where sv: "sv = (t, v)" by (cases sv)
    show ?thesis
    proof (cases "genmat_task ok b ii jj (t, v)")
      case (Inl e)
      with genmat_task_mallocs [where ok = ok and b = b and ii = ii and jj = jj and s = t and v = v] that sv show ?thesis
        by (auto intro: order_trans)
    next
      case (Inr tv')
      obtain t' v' where tv': "tv' = (t', v')" by (cases tv')
      from Inr tv' genmat_task_mallocs [where ok = ok and b = b and ii = ii and jj = jj and s = t and v = v]
      have "mallocs t \<le> mallocs t'" "\<forall>m. mallocs t \<le> m \<and> m < mallocs t' \<longrightarrow> ok m"
        by simp_all
      with that sv have "?J 0 (t', if sh then v' else v)"
        by (auto simp: not_less [symmetric])
      with Inr tv' sv show ?thesis by simp
    qed
  qed
  have row: "case for_loopE 0 n (?body ii) sv of Inl e \<Rightarrow> ?E e | Inr sv' \<Rightarrow> ?J 0 sv'"
    if "?J 0 sv" for ii sv
    by (rule for_loopE_rule [where J = ?J and E = ?E]) (use that cell in auto)
  have "case for_loopE 0 n (\<lambda>ii. for_loopE 0 n (?body ii)) (s, 1325) of
          Inl e \<Rightarrow> ?E e | Inr sv' \<Rightarrow> ?J 0 sv'"
    by (rule for_loopE_rule [where J = ?J and E = ?E]) (use row in auto)
  then show ?thesis
    unfolding genmat_loops_def
    by (auto split: sum.splits prod.splits)
qed

lemma sparselu_init_cases:
  "case sparselu_init ok n b c of
     Inl e \<Rightarrow> (e = Exit 101 bench_msg \<or> e = Exit 101 block_msg) \<and> (\<exists>m\<ge>c. \<not> ok m)
   | Inr s \<Rightarrow> c + n < mallocs s \<and> (\<forall>m. c \<le> m \<and> m < mallocs s \<longrightarrow> ok m)"
proof (cases "\<exists>m. c \<le> m \<and> m \<le> c + n \<and> \<not> ok m")
  case True
  then obtain m where m: "c \<le> m" "m \<le> c + n" "\<not> ok m" by blast
  then have "m = c \<or> (Suc c \<le> m \<and> m < Suc c + n)" by auto
  with m have "\<not> ok c \<or> (\<exists>m. Suc c \<le> m \<and> m < Suc c + n \<and> \<not> ok m)" by blast
  with m show ?thesis
    by (auto simp: sparselu_init_def bench_rows_eq)
next
  case False
  then have rows: "ok c" "\<not> (\<exists>m. Suc c \<le> m \<and> m < Suc c + n \<and> \<not> ok m)"
    and all: "\<forall>m. c \<le> m \<and> m < Suc c + n \<longrightarrow> ok m"
    by (auto simp: less_Suc_eq_le)
  let ?s0 = "\<lparr>grid = (\<lambda>i j. None), mallocs = Suc c + n, trace = []\<rparr> :: rat state"
  have eq: "sparselu_init ok n b c = genmat_loops False ok n b ?s0"
    using rows by (auto simp: sparselu_init_def bench_rows_eq genmat_def)
  show ?thesis
  proof (cases "genmat_loops False ok n b ?s0")
    case (Inl e)
    with genmat_loops_mallocs [where sh = False and ok = ok and n = n and b = b and s = ?s0]
    have e: "e = Exit 101 block_msg" and "\<exists>m\<ge>Suc c + n. \<not> ok m" by simp_all
    then obtain m where "Suc c + n \<le> m" "\<not> ok m" by blast
    then have "c \<le> m \<and> \<not> ok m" by simp
    then have "\<exists>m\<ge>c. \<not> ok m" by blast
    with Inl eq e show ?thesis by simp
  next
    case (Inr s)
    with genmat_loops_mallocs [where sh = False and ok = ok and n = n and b = b and s = ?s0]
    have 1: "Suc c + n \<le> mallocs s" and 2: "\<forall>m. Suc c + n \<le> m \<and> m < mallocs s \<longrightarrow> ok m"
      by simp_all
    have "ok m" if "c \<le> m" "m < mallocs s" for m
    proof (cases "m < Suc c + n")
      case True
      with all that show ?thesis by blast
    next
      case False
      with 2 that show ?thesis by simp
    qed
    with 1 Inr eq show ?thesis by simp
  qed
qed

lemma sparselu_init_rows_fail:
  assumes "\<exists>m. c \<le> m \<and> m \<le> c + n \<and> \<not> ok m"
  shows "sparselu_init ok n b c = Inl (Exit 101 bench_msg)"
proof -
  from assms obtain m where m: "c \<le> m" "m \<le> c + n" "\<not> ok m" by blast
  then have "m = c \<or> (Suc c \<le> m \<and> m < Suc c + n)" by auto
  with m have "\<not> ok c \<or> (\<exists>m. Suc c \<le> m \<and> m < Suc c + n \<and> \<not> ok m)" by blast
  then show ?thesis
    by (auto simp: sparselu_init_def bench_rows_eq)
qed

text \<open>
  C9. Every allocation of \<open>allocate_clean_block\<close> (the row pointers of a tile and
  each of its rows) and of \<open>sparselu_init\<close> (the table of rows, each row, and the
  tiles of \<open>genmat\<close>) is tested: when a \<^verbatim>\<open>malloc\<close> fails the result is
  \<^verbatim>\<open>exit(101)\<close> with the line printed to \<^verbatim>\<open>stderr\<close>, and nothing else is
  returned. \<open>allocate_clean_block\<close> fails exactly when one of its
  \<open>submatrix_size + 1\<close> calls fails, and otherwise returns the complete block of
  zeros after exactly that many calls. \<open>sparselu_init\<close> returns a matrix only
  when every call it made succeeded; each of its errors is exit code 101 and
  comes with a failed call. The same holds for the fill-in of the factorization.
\<close>

theorem allocation_failure_exits:
  "allocate_clean_block ok b c =
     (if \<exists>m. c \<le> m \<and> m \<le> c + b \<and> \<not> ok m then Inl (Exit 101 block_msg)
      else Inr (replicate b (replicate b (0 :: 'a :: zero)), Suc (c + b)))
   \<and> ((\<exists>m. c \<le> m \<and> m \<le> c + n \<and> \<not> ok m) \<longrightarrow>
        sparselu_init ok n b c = Inl (Exit 101 bench_msg))
   \<and> (sparselu_init ok n b c = Inl e \<longrightarrow>
        (e = Exit 101 bench_msg \<or> e = Exit 101 block_msg) \<and> (\<exists>m\<ge>c. \<not> ok m))
   \<and> (sparselu_init ok n b c = Inr s \<longrightarrow>
        c + n < mallocs s \<and> (\<forall>m. c \<le> m \<and> m < mallocs s \<longrightarrow> ok m))
   \<and> (fill_in ok b who i j (t :: 'a state) = Inl e' \<longrightarrow>
        e' = Exit 101 block_msg \<and> (\<exists>m. mallocs t \<le> m \<and> m \<le> mallocs t + b \<and> \<not> ok m))"
proof (intro conjI impI)
  show "allocate_clean_block ok b c =
     (if \<exists>m. c \<le> m \<and> m \<le> c + b \<and> \<not> ok m then Inl (Exit 101 block_msg)
      else Inr (replicate b (replicate b (0 :: 'a)), Suc (c + b)))"
    by (rule allocate_clean_block_eq)
next
  assume "\<exists>m. c \<le> m \<and> m \<le> c + n \<and> \<not> ok m"
  then show "sparselu_init ok n b c = Inl (Exit 101 bench_msg)"
    by (rule sparselu_init_rows_fail)
next
  assume "sparselu_init ok n b c = Inl e"
  with sparselu_init_cases [where ok = ok and n = n and b = b and c = c]
  show "e = Exit 101 bench_msg \<or> e = Exit 101 block_msg" and "\<exists>m\<ge>c. \<not> ok m"
    by simp_all
next
  assume "sparselu_init ok n b c = Inr s"
  with sparselu_init_cases [where ok = ok and n = n and b = b and c = c]
  show "c + n < mallocs s" and "\<forall>m. c \<le> m \<and> m < mallocs s \<longrightarrow> ok m"
    by simp_all
next
  assume "fill_in ok b who i j t = Inl e'"
  then show "e' = Exit 101 block_msg"
    and "\<exists>m. mallocs t \<le> m \<and> m \<le> mallocs t + b \<and> \<not> ok m"
    by (auto simp: fill_in_def allocate_clean_block_eq split: if_splits)
qed

theorem allocation_failure_exits_witness:
  "allocate_clean_block (\<lambda>c. c \<noteq> 1) 2 0 = (Inl (Exit 101 block_msg) :: error + rat tile \<times> nat)
   \<and> allocate_clean_block (\<lambda>c. True) 2 0 = Inr ([[0, 0], [0, 0 :: rat]], 3)
   \<and> sparselu_init (\<lambda>c. c \<noteq> 1) 1 1 0 = Inl (Exit 101 bench_msg)
   \<and> (case sparselu_init (\<lambda>c. True) 1 2 0 of Inl e \<Rightarrow> False | Inr s \<Rightarrow> 1 < mallocs s)
   \<and> fill_in (\<lambda>c. c \<noteq> 1) 1 Issuing_thread 1 2 fill_example = Inl (Exit 101 block_msg)"
proof -
  note T = allocation_failure_exits
  note T2 = T [THEN conjunct2, THEN conjunct1, rule_format]
  note T4 = T [THEN conjunct2, THEN conjunct2, THEN conjunct2, THEN conjunct1, rule_format]
  note T5 = T [THEN conjunct2, THEN conjunct2, THEN conjunct2, THEN conjunct2, rule_format]
  have ex: "\<exists>m::nat. 0 \<le> m \<and> m \<le> 0 + k \<and> \<not> m \<noteq> 1" if "1 \<le> k" for k
    using that by (intro exI [of _ 1]) simp
  have 1: "allocate_clean_block (\<lambda>c. c \<noteq> 1) 2 0 = (Inl (Exit 101 block_msg) :: error + rat tile \<times> nat)"
    using T [where ok = "\<lambda>c. c \<noteq> 1" and b = 2 and c = 0, THEN conjunct1] ex [of 2]
    by (simp only: if_True)
  have "\<not> (\<exists>m::nat. 0 \<le> m \<and> m \<le> 0 + 2 \<and> \<not> True)" by simp
  with T [where ok = "\<lambda>c. True" and b = 2 and c = 0, THEN conjunct1]
  have "allocate_clean_block (\<lambda>c. True) 2 0 = Inr (replicate 2 (replicate 2 (0::rat)), Suc (0 + 2))"
    by (simp only: if_False)
  then have 2: "allocate_clean_block (\<lambda>c. True) 2 0 = Inr ([[0, 0], [0, 0 :: rat]], 3)"
    by (simp add: numeral_2_eq_2)
  have 3: "sparselu_init (\<lambda>c. c \<noteq> 1) 1 1 0 = Inl (Exit 101 bench_msg)"
    using ex [of 1] by (intro T2) simp
  obtain s0 where s0: "sparselu_init (\<lambda>c. True) 1 2 0 = Inr s0"
    using sparselu_init_1_2 by blast
  from T4 [OF s0] have 4: "1 < mallocs s0" by simp
  have "\<exists>e'. fill_in (\<lambda>c. c \<noteq> 1) 1 Issuing_thread 1 2 fill_example = Inl e'"
    using ex [of 1] by (simp add: fill_in_def allocate_clean_block_eq fill_example_def)
  then obtain e' where e': "fill_in (\<lambda>c. c \<noteq> 1) 1 Issuing_thread 1 2 fill_example = Inl e'"
    by blast
  from T5 [OF e'] e'
  have 5: "fill_in (\<lambda>c. c \<noteq> 1) 1 Issuing_thread 1 2 fill_example = Inl (Exit 101 block_msg)"
    by simp
  from 1 2 3 4 5 s0 show ?thesis by simp
qed

section \<open>The example matrix under both functions\<close>

theorem par_call_agrees_with_seq_call_witness:
  "grid fill_example 0 0 \<noteq> None \<and> grid fill_example 1 1 \<noteq> None \<and> grid fill_example 2 2 \<noteq> None
   \<and> map_sum id grid (sparselu_par_call (\<lambda>c. True) 3 1 fill_example)
     = map_sum id grid (sparselu_seq_call (\<lambda>c. True) 3 1 fill_example)
   \<and> (\<exists>t'. sparselu_seq_call (\<lambda>c. True) 3 1 fill_example = Inr t' \<and> grid t' 1 2 = Some [[- 12]])
   \<and> (\<exists>s0. sparselu_init (\<lambda>c. True) 1 2 0 = Inr s0
         \<and> map_sum id grid (sparselu_par_call (\<lambda>c. True) 1 2 s0)
           = map_sum id grid (sparselu_seq_call (\<lambda>c. True) 1 2 s0))"
proof -
  have held: "\<forall>i<3. grid fill_example i i \<noteq> None"
    by (simp add: fill_example_def)
  have held3: "grid fill_example 0 0 \<noteq> None" "grid fill_example 1 1 \<noteq> None"
    "grid fill_example 2 2 \<noteq> None"
    by (simp_all add: fill_example_def)
  note eq = par_call_agrees_with_seq_call [where s = fill_example and n = 3 and ok = "\<lambda>c. True"
      and b = 1, THEN conjunct1, THEN mp, OF held]
  obtain s' where s': "sparselu_par_call (\<lambda>c. True) 3 1 fill_example = Inr s'"
    "grid s' 1 2 = Some [[- 12]]"
    using par_call_fill_example by blast
  from eq s' obtain t' where t': "sparselu_seq_call (\<lambda>c. True) 3 1 fill_example = Inr t'"
    "grid t' = grid s'"
    by (cases "sparselu_seq_call (\<lambda>c. True) 3 1 fill_example") simp_all
  from t' s'(2) have seq: "\<exists>t'. sparselu_seq_call (\<lambda>c. True) 3 1 fill_example = Inr t'
      \<and> grid t' 1 2 = Some [[- 12]]"
    by simp
  obtain s0 where s0: "sparselu_init (\<lambda>c. True) 1 2 0 = Inr s0"
    using sparselu_init_1_2 by blast
  note gen = par_call_agrees_with_seq_call [where s = one_tile and n = 1 and ok = "\<lambda>c. True"
      and b = 2 and ok' = "\<lambda>c. True" and c = 0 and ?s0.0 = s0,
      THEN conjunct2, THEN mp, OF s0]
  from s0 gen have "\<exists>s0. sparselu_init (\<lambda>c. True) 1 2 0 = Inr s0
         \<and> map_sum id grid (sparselu_par_call (\<lambda>c. True) 1 2 s0)
           = map_sum id grid (sparselu_seq_call (\<lambda>c. True) 1 2 s0)"
    by blast
  with held3 eq seq show ?thesis by blast
qed

section \<open>The values the generator stores\<close>

lemma for_loop_rule:
  assumes "a \<le> n" and "J a s"
    and step: "\<And>i t. a \<le> i \<Longrightarrow> i < n \<Longrightarrow> J i t \<Longrightarrow> J (Suc i) (f i t)"
  shows "J n (for_loop a n f s)"
proof -
  have "a \<le> i \<Longrightarrow> i \<le> n \<Longrightarrow> J i t \<Longrightarrow> J n (for_loop i n f t)" for i t
  proof (induction "n - i" arbitrary: i t)
    case 0
    then show ?case by (simp add: for_loop.simps [of i])
  next
    case (Suc d)
    then have lt: "i < n" by simp
    have "J n (for_loop (Suc i) n f (f i t))"
      using Suc.hyps(2) Suc.prems lt by (intro Suc.hyps(1) step) simp_all
    with lt show ?case by (simp add: for_loop.simps [of i])
  qed
  with assms(1,2) show ?thesis by simp
qed

lemma square_put: "square b t \<Longrightarrow> square b (put t i j x)"
proof -
  assume sq: "square b t"
  have "length (t[i := (t ! i)[j := x]] ! r) = b" if "r < b" for r
  proof (cases "r = i")
    case True
    with that sq show ?thesis by (simp add: square_def)
  next
    case False
    with that sq show ?thesis by (simp add: square_def)
  qed
  with sq show ?thesis by (simp add: square_def put_def)
qed

lemma get_put:
  "square b t \<Longrightarrow> i < b \<Longrightarrow> j < b \<Longrightarrow>
   get (put t i j x) r c = (if r = i \<and> c = j then x else get t r c)"
  by (auto simp: square_def put_def get_def nth_list_update)

lemma square_zero: "square b (replicate b (replicate b x))"
  by (simp add: square_def)

lemma tile_eqI:
  assumes "square b t" and "\<And>r c. r < b \<Longrightarrow> c < b \<Longrightarrow> get t r c = f r c"
  shows "t = map (\<lambda>r. map (f r) [0..<b]) [0..<b]"
proof (rule nth_equalityI)
  show "length t = length (map (\<lambda>r. map (f r) [0..<b]) [0..<b])"
    using assms(1) by (simp add: square_def)
next
  fix r assume "r < length t"
  then have r: "r < b" using assms(1) by (simp add: square_def)
  have "t ! r = map (f r) [0..<b]"
  proof (rule nth_equalityI)
    show "length (t ! r) = length (map (f r) [0..<b])"
      using assms(1) r by (simp add: square_def)
  next
    fix c assume "c < length (t ! r)"
    then have "c < b" using assms(1) r by (simp add: square_def)
    with assms(2) [OF r this] show "t ! r ! c = map (f r) [0..<b] ! c"
      by (simp add: get_def)
  qed
  with r show "t ! r = map (\<lambda>r. map (f r) [0..<b]) [0..<b] ! r" by simp
qed

lemma fill_tile:
  assumes sq: "square b t"
  shows "for_loop 0 b (\<lambda>i.
           for_loop 0 b (\<lambda>j (block, init_val).
             let init_val = next_init_val init_val
             in (put block i j (tile_value init_val), init_val))) (t, v)
         = (tile_from b v, (next_init_val ^^ (b * b)) v)"
proof -
  let ?step = "\<lambda>(i::nat) (j::nat) (bv :: rat tile \<times> int).
      case bv of (block, init_val) \<Rightarrow>
        let init_val = next_init_val init_val
        in (put block i j (tile_value init_val), init_val)"
  let ?val = "\<lambda>r c. tile_value ((next_init_val ^^ (r * b + c + 1)) v)"
  let ?J = "\<lambda>i j (bv :: rat tile \<times> int). square b (fst bv)
      \<and> snd bv = (next_init_val ^^ (i * b + j)) v
      \<and> (\<forall>r c. r < b \<and> c < b \<and> (r < i \<or> (r = i \<and> c < j)) \<longrightarrow> get (fst bv) r c = ?val r c)"
  have inner: "?J i b (for_loop 0 b (?step i) bv)" if i: "i < b" and J: "?J i 0 bv" for i bv
  proof (rule for_loop_rule [where J = "?J i"])
    fix j and bw :: "rat tile \<times> int" assume j: "j < b" and Jw: "?J i j bw"
    obtain block w where bw: "bw = (block, w)" by (cases bw)
    from Jw bw have sqb: "square b block" and w: "w = (next_init_val ^^ (i * b + j)) v"
      and old: "\<forall>r c. r < b \<and> c < b \<and> (r < i \<or> (r = i \<and> c < j)) \<longrightarrow> get block r c = ?val r c"
      by simp_all
    have "get (put block i j (tile_value (next_init_val w))) r c = ?val r c"
      if "r < b" "c < b" "r < i \<or> (r = i \<and> c < Suc j)" for r c
      using that old w by (auto simp: get_put [OF sqb i j] less_Suc_eq)
    with sqb w show "?J i (Suc j) (?step i j bw)"
      unfolding bw by (simp add: Let_def square_put)
  qed (use J in simp_all)
  have "?J b 0 (for_loop 0 b (\<lambda>i. for_loop 0 b (?step i)) (t, v))"
  proof (rule for_loop_rule [where J = "\<lambda>i. ?J i 0"])
    show "?J 0 0 (t, v)" using sq by simp
  next
    fix i and bv :: "rat tile \<times> int" assume i: "i < b" and J: "?J i 0 bv"
    from inner [OF i J] show "?J (Suc i) 0 (for_loop 0 b (?step i) bv)"
      by (auto simp: less_Suc_eq add.commute)
  qed simp
  then have res: "square b (fst (for_loop 0 b (\<lambda>i. for_loop 0 b (?step i)) (t, v)))"
    "snd (for_loop 0 b (\<lambda>i. for_loop 0 b (?step i)) (t, v)) = (next_init_val ^^ (b * b)) v"
    "\<And>r c. r < b \<Longrightarrow> c < b \<Longrightarrow>
       get (fst (for_loop 0 b (\<lambda>i. for_loop 0 b (?step i)) (t, v))) r c = ?val r c"
    by simp_all
  have "fst (for_loop 0 b (\<lambda>i. for_loop 0 b (?step i)) (t, v)) = tile_from b v"
    unfolding tile_from_def using res(1) res(3) by (rule tile_eqI)
  with res(2) show ?thesis
    by (simp add: prod_eq_iff)
qed

lemma genmat_task_eq:
  "genmat_task ok b ii jj (s, v) =
     (if null_entry ii jj then Inr (s\<lparr>grid := set_slot (grid s) ii jj None\<rparr>, v)
      else if \<exists>m. mallocs s \<le> m \<and> m \<le> mallocs s + b \<and> \<not> ok m
      then Inl (Exit 101 block_msg)
      else Inr (s\<lparr>grid := set_slot (grid s) ii jj (Some (tile_from b v)),
                  mallocs := Suc (mallocs s + b)\<rparr>,
                (next_init_val ^^ (b * b)) v))"
  by (auto simp: genmat_task_def allocate_clean_block_eq fill_tile [OF square_zero])

lemma tiles_before_Suc:
  "tiles_before n i (Suc j) = tiles_before n i j + (if null_entry i j then 0 else 1)"
  by (simp add: tiles_before_def row_tiles_def)

lemma tiles_before_row: "tiles_before n (Suc i) 0 = tiles_before n i n"
  by (simp add: tiles_before_def row_tiles_def)

lemma funpow_block:
  "(next_init_val ^^ (b * b)) ((next_init_val ^^ (b * b * k)) v) = (next_init_val ^^ (b * b * Suc k)) v"
  by (simp add: funpow_add [symmetric, unfolded o_def, THEN fun_cong] add.commute)

lemma genmat_loops_values:
  assumes run: "genmat_loops sh ok n b s = Inr s'"
  shows "\<forall>i<n. \<forall>j<n. grid s' i j =
           (if null_entry i j then None
            else Some (tile_from b (if sh then (next_init_val ^^ (b * b * tiles_before n i j)) 1325
                                    else 1325)))"
proof -
  let ?body = "\<lambda>ii jj (sv :: rat state \<times> int).
      case sv of (s, init_val) \<Rightarrow>
        bindE (genmat_task ok b ii jj (s, init_val))
          (\<lambda>(s, task_init_val). Inr (s, if sh then task_init_val else init_val))"
  let ?seed = "\<lambda>i j. if sh then (next_init_val ^^ (b * b * tiles_before n i j)) 1325 else 1325"
  let ?want = "\<lambda>i j. if null_entry i j then None else Some (tile_from b (?seed i j))"
  let ?Jin = "\<lambda>ii jj (sv :: rat state \<times> int).
      (\<forall>i j. (i < ii \<and> j < n) \<or> (i = ii \<and> j < jj) \<longrightarrow> grid (fst sv) i j = ?want i j)
      \<and> snd sv = ?seed ii jj"
  have inner: "?Jin (Suc ii) 0 sv'"
    if "for_loopE 0 n (?body ii) sv = Inr sv'" and "?Jin ii 0 sv" for ii sv sv'
  proof -
    have "?Jin ii n sv'"
      using that(1)
    proof (rule for_loopE_Inr_rule [where J = "?Jin ii"])
      show "?Jin ii 0 sv" using that(2) .
    next
      fix jj and tv tv' :: "rat state \<times> int"
      assume jj: "jj < n" and J: "?Jin ii jj tv" and step: "?body ii jj tv = Inr tv'"
      obtain t v where tv: "tv = (t, v)" by (cases tv)
      from J tv have v: "v = ?seed ii jj"
        and old: "\<forall>i j. (i < ii \<and> j < n) \<or> (i = ii \<and> j < jj) \<longrightarrow> grid t i j = ?want i j"
        by simp_all
      show "?Jin ii (Suc jj) tv'"
      proof (cases "null_entry ii jj")
        case True
        with step tv have tv': "tv' = (t\<lparr>grid := set_slot (grid t) ii jj None\<rparr>, v)"
          by (auto simp: genmat_task_eq)
        show ?thesis
          unfolding tv' using old v True
          by (auto simp: set_slot_def less_Suc_eq tiles_before_Suc)
      next
        case False
        with step tv have tv': "tv' =
            (t\<lparr>grid := set_slot (grid t) ii jj (Some (tile_from b v)),
                mallocs := Suc (mallocs t + b)\<rparr>,
             if sh then (next_init_val ^^ (b * b)) v else v)"
          by (auto simp: genmat_task_eq split: if_splits)
        show ?thesis
          unfolding tv' using old v False
          by (auto simp: set_slot_def less_Suc_eq tiles_before_Suc funpow_block)
      qed
    qed simp
    then show ?thesis
      by (auto simp: less_Suc_eq tiles_before_row)
  qed
  from run obtain sv' where loops:
    "for_loopE 0 n (\<lambda>ii. for_loopE 0 n (?body ii)) (s, 1325) = Inr sv'" and s': "s' = fst sv'"
    by (auto simp: genmat_loops_def bindE_Inr_iff split: prod.splits)
  have "?Jin n 0 sv'"
    using loops
  proof (rule for_loopE_Inr_rule [where J = "\<lambda>ii. ?Jin ii 0"])
    show "?Jin 0 0 (s, 1325)"
      by (simp add: tiles_before_def row_tiles_def)
  next
    fix ii and tv tv' :: "rat state \<times> int"
    assume "?Jin ii 0 tv" and "for_loopE 0 n (?body ii) tv = Inr tv'"
    then show "?Jin (Suc ii) 0 tv'" by (rule inner [rotated])
  qed simp
  then show ?thesis by (simp add: s')
qed

lemma next_init_val_range:
  assumes "0 \<le> v" and "v < 65536"
  shows "3125 * v < 2 ^ 31" and "next_init_val v = (3125 * v) mod 65536"
    and "0 \<le> next_init_val v" and "next_init_val v < 65536"
  using assms by (simp_all add: next_init_val_def smod_int_alt_def sgn_if)

lemma init_val_in_range: "0 \<le> (next_init_val ^^ k) 1325 \<and> (next_init_val ^^ k) 1325 < 65536"
  by (induction k) (simp_all add: next_init_val_range)

lemma sparselu_init_values:
  assumes "sparselu_init ok n b c = Inr s"
  shows "\<forall>i<n. \<forall>j<n. grid s i j = (if null_entry i j then None else Some (tile_from b 1325))"
proof -
  from assms obtain c' where
    "genmat ok n b \<lparr>grid = (\<lambda>i j. None), mallocs = c', trace = []\<rparr> = Inr s"
    by (auto simp: sparselu_init_def bindE_Inr_iff split: if_splits)
  then have "genmat_loops False ok n b \<lparr>grid = (\<lambda>i j. None), mallocs = c', trace = []\<rparr> = Inr s"
    by (simp add: genmat_def)
  from genmat_loops_values [OF this] show ?thesis by simp
qed

lemma genmat_serial_values:
  assumes "genmat_serial ok n b s = Inr s'"
  shows "\<forall>i<n. \<forall>j<n. grid s' i j =
           (if null_entry i j then None
            else Some (tile_from b ((next_init_val ^^ (b * b * tiles_before n i j)) 1325)))"
  using genmat_loops_values [of True ok n b s s'] assms by (simp add: genmat_serial_def)

lemma sparselu_init_returns: "\<exists>s. sparselu_init (\<lambda>c. True) n b c = Inr s"
  using sparselu_init_cases [where ok = "\<lambda>c. True" and n = n and b = b and c = c]
  by (cases "sparselu_init (\<lambda>c. True) n b c") auto

lemma genmat_serial_returns: "\<exists>s'. genmat_serial (\<lambda>c. True) n b s = Inr s'"
  using genmat_loops_mallocs [where sh = True and ok = "\<lambda>c. True" and n = n and b = b and s = s]
  by (cases "genmat_loops True (\<lambda>c. True) n b s") (auto simp: genmat_serial_def)

lemma draw_65: "(next_init_val ^^ 64) 1325 = 17453" "next_init_val 17453 = 14673"
  "next_init_val 1325 = 11857"
  by (simp_all add: next_init_val_def smod_int_alt_def eval_nat_numeral)

lemma first_entry: "0 < b \<Longrightarrow> get (tile_from b v) 0 0 = tile_value (next_init_val v)"
  by (simp add: tile_from_def get_def upt_conv_Cons)

text \<open>
  C4. The slots that hold a tile are those of the claim (\<open>null_entry_iff\<close>,
  \<open>sparselu_init_slots\<close>). The values are not: the claim has the tiles draw from
  one run of the recurrence, slot after slot in row-major order, which is what
  the loops do when the task pragma is ignored (\<open>genmat_serial_values\<close>). In the
  program compiled with OpenMP each task advances its own copy of \<open>init_val\<close>, so
  every tile holds the first \<open>b * b\<close> draws after the seed 1325
  (\<open>sparselu_init_values\<close>). With the sizes of \<open>main\<close>, 16 and 8, the tiles of slots
  \<open>(0, 0)\<close> and \<open>(0, 1)\<close> are equal and both start with \<open>-20911/16384\<close>, where the
  claim gives slot \<open>(0, 1)\<close> the draws 65 to 128, starting with \<open>-18095/16384\<close>.
\<close>

theorem generator_restarts_at_every_tile:
  "\<exists>s s'. sparselu_init (\<lambda>c. True) 16 8 0 = Inr s
      \<and> grid s 0 0 = Some (tile_from 8 1325)
      \<and> grid s 0 1 = Some (tile_from 8 1325)
      \<and> get (tile_from 8 1325) 0 0 = - (20911 / 16384)
      \<and> genmat_serial (\<lambda>c. True) 16 8 \<lparr>grid = (\<lambda>i j. None), mallocs = 17, trace = []\<rparr> = Inr s'
      \<and> grid s' 0 0 = Some (tile_from 8 1325)
      \<and> grid s' 0 1 = Some (tile_from 8 ((next_init_val ^^ 64) 1325))
      \<and> get (tile_from 8 ((next_init_val ^^ 64) 1325)) 0 0 = - (18095 / 16384)"
proof -
  obtain s where s: "sparselu_init (\<lambda>c. True) 16 8 0 = Inr s"
    using sparselu_init_returns by blast
  obtain s' where s': "genmat_serial (\<lambda>c. True) 16 8
      \<lparr>grid = (\<lambda>i j. None), mallocs = 17, trace = []\<rparr> = Inr s'"
    using genmat_serial_returns by blast
  have ne: "\<not> null_entry 0 0" "\<not> null_entry 0 1"
    by (simp_all add: null_entry_iff)
  have tb: "tiles_before 16 0 0 = 0" "tiles_before 16 0 1 = 1"
    using ne by (simp_all add: tiles_before_def row_tiles_def)
  from sparselu_init_values [OF s] ne
  have 1: "grid s 0 0 = Some (tile_from 8 1325)" "grid s 0 1 = Some (tile_from 8 1325)"
    by simp_all
  from genmat_serial_values [OF s'] ne tb
  have 2: "grid s' 0 0 = Some (tile_from 8 1325)"
    "grid s' 0 1 = Some (tile_from 8 ((next_init_val ^^ 64) 1325))"
    by simp_all
  have 3: "get (tile_from 8 1325) 0 0 = - (20911 / 16384)"
    "get (tile_from 8 ((next_init_val ^^ 64) 1325)) 0 0 = - (18095 / 16384)"
    by (simp_all add: first_entry draw_65 tile_value_def)
  from s s' 1 2 3 show ?thesis by blast
qed

section \<open>The pivot of the second pass\<close>

text \<open>
  Row 0 of a tile through the kernels of one pass. \<open>lu0\<close> and \<open>fwd\<close> write below
  row 0 only. When the diagonal tile and the tile of \<open>bdiv\<close> have the same row 0,
  with a first entry that is not zero, \<open>bdiv\<close> leaves \<open>(1, 0, ..., 0)\<close> in row 0;
  \<open>bmod\<close> with such a row, on a column tile and a target with the same first
  entry, leaves zero in entry \<open>[0][0]\<close>. The entries are those of a field here.
\<close>

lemma for_loop_keeps:
  assumes "\<And>i t. a \<le> i \<Longrightarrow> i < n \<Longrightarrow> h (f i t) = h t"
  shows "h (for_loop a n f s) = h s"
proof (cases "a \<le> n")
  case True
  then show ?thesis
    by (rule for_loop_rule [where J = "\<lambda>i t. h t = h s"]) (simp_all add: assms)
next
  case False
  then show ?thesis by (simp add: for_loop.simps [of a])
qed

lemma for_loop_first: "a < n \<Longrightarrow> for_loop a n f s = for_loop (Suc a) n f (f a s)"
  by (simp add: for_loop.simps [of a])

lemma put_first_row: "i \<noteq> 0 \<Longrightarrow> put t i j x ! 0 = t ! 0"
  by (simp add: put_def)

lemma get_put_first: "i \<noteq> 0 \<or> j \<noteq> 0 \<Longrightarrow> get (put t i j x) 0 0 = get t 0 0"
  by (cases t) (auto simp: get_def put_def nth_list_update split: nat.splits)

lemma lu0_first_row: "lu0 d b ! 0 = d ! 0"
  unfolding lu0_def
proof (rule for_loop_keeps [where h = "\<lambda>t. t ! 0"])
  fix k and t :: "'a tile"
  show "for_loop (k + 1) b (\<lambda>i diag.
          let diag = put diag i k (get diag i k / get diag k k) in
          for_loop (k + 1) b (\<lambda>j diag.
            put diag i j (get diag i j - get diag i k * get diag k j)) diag) t ! 0 = t ! 0"
  proof (rule for_loop_keeps [where h = "\<lambda>t. t ! 0"])
    fix i and u :: "'a tile" assume "k + 1 \<le> i"
    then have i: "i \<noteq> 0" by simp
    have "for_loop (k + 1) b (\<lambda>j diag.
            put diag i j (get diag i j - get diag i k * get diag k j)) v ! 0 = v ! 0"
      for v :: "'a tile"
      by (rule for_loop_keeps [where h = "\<lambda>t. t ! 0"]) (simp add: put_first_row i)
    then show "(let diag = put u i k (get u i k / get u k k) in
          for_loop (k + 1) b (\<lambda>j diag.
            put diag i j (get diag i j - get diag i k * get diag k j)) diag) ! 0 = u ! 0"
      by (simp add: Let_def put_first_row i)
  qed
qed

lemma fwd_first_row: "fwd d c b ! 0 = c ! 0"
  unfolding fwd_def
proof (rule for_loop_keeps [where h = "\<lambda>t. t ! 0"])
  fix j and t :: "'a tile"
  show "for_loop 0 b (\<lambda>k. for_loop (k + 1) b (\<lambda>i col.
          put col i j (get col i j - get d i k * get col k j))) t ! 0 = t ! 0"
  proof (rule for_loop_keeps [where h = "\<lambda>t. t ! 0"])
    fix k and u :: "'a tile"
    show "for_loop (k + 1) b (\<lambda>i col.
          put col i j (get col i j - get d i k * get col k j)) u ! 0 = u ! 0"
      by (rule for_loop_keeps [where h = "\<lambda>t. t ! 0"]) (simp add: put_first_row)
  qed
qed


lemma bdiv_first_row:
  fixes d r :: "('a :: field) tile"
  assumes sq: "square b r" and b: "0 < b" and nz: "get r 0 0 \<noteq> 0"
    and row: "\<And>c. c < b \<Longrightarrow> get d 0 c = get r 0 c"
    and c: "c < b"
  shows "get (bdiv d r b) 0 c = (if c = 0 then 1 else 0)"
proof -
  let ?inner = "\<lambda>i k (j::nat) (row :: 'a tile).
      put row i j (get row i j - get row i k * get d k j)"
  let ?mid = "\<lambda>i (k::nat) (row :: 'a tile).
      let row = put row i k (get row i k / get d k k) in for_loop (k + 1) b (?inner i k) row"
  let ?G = "\<lambda>i. for_loop 0 b (?mid i)"
  let ?unit = "\<lambda>c::nat. if c = 0 then 1 else (0 :: 'a)"
  let ?J = "\<lambda>k (t :: 'a tile). square b t
      \<and> (\<forall>c<b. get t 0 c = (if k = 0 then get r 0 c else ?unit c))"
  have split: "bdiv d r b = for_loop (Suc 0) b ?G (?G 0 r)"
    unfolding bdiv_def by (rule for_loop_first [OF b])
  have rest: "for_loop (Suc 0) b ?G x ! 0 = x ! 0" for x :: "'a tile"
  proof (rule for_loop_keeps [where h = "\<lambda>t. t ! 0"])
    fix i and t :: "'a tile" assume "Suc 0 \<le> i"
    then have i: "i \<noteq> 0" by simp
    show "?G i t ! 0 = t ! 0"
    proof (rule for_loop_keeps [where h = "\<lambda>t. t ! 0"])
      fix k and u :: "'a tile"
      have "for_loop (k + 1) b (?inner i k) v ! 0 = v ! 0" for v :: "'a tile"
        by (rule for_loop_keeps [where h = "\<lambda>t. t ! 0"]) (simp add: put_first_row i)
      then show "?mid i k u ! 0 = u ! 0"
        by (simp add: Let_def put_first_row i)
    qed
  qed
  have "?J b (?G 0 r)"
  proof (rule for_loop_rule [where J = ?J])
    show "?J 0 r" using sq by simp
  next
    fix k and t :: "'a tile" assume k: "k < b" and J: "?J k t"
    then have sqt: "square b t" by simp
    define t1 where "t1 = put t 0 k (get t 0 k / get d k k)"
    have sq1: "square b t1"
      using sqt by (simp add: t1_def square_put)
    have v1: "get t1 0 c = (if k = 0 then (if c = 0 then 1 else get r 0 c) else ?unit c)"
      if "c < b" for c
      using that J nz row [OF b] k by (auto simp: t1_def get_put [OF sqt b k])
    let ?I = "\<lambda>j (u :: 'a tile). square b u
        \<and> (\<forall>c<b. get u 0 c = (if k = 0 then (if c = 0 then 1 else if c < j then 0 else get r 0 c)
                                else ?unit c))"
    have "?I b (for_loop (k + 1) b (?inner 0 k) t1)"
    proof (rule for_loop_rule [where J = ?I])
      show "k + 1 \<le> b" using k by simp
    next
      show "?I (k + 1) t1" using sq1 v1 by auto
    next
      fix j and u :: "'a tile" assume j: "k + 1 \<le> j" "j < b" and I: "?I j u"
      then have squ: "square b u" by simp
      from I j k row [OF j(2)] show "?I (Suc j) (?inner 0 k j u)"
        by (auto simp: get_put [OF squ b j(2)] square_put less_Suc_eq)
    qed
    then show "?J (Suc k) (?mid 0 k t)"
      by (auto simp: Let_def t1_def)
  qed simp
  with c have val: "get (?G 0 r) 0 c = ?unit c" by simp
  have "bdiv d r b ! 0 = ?G 0 r ! 0"
    by (simp only: split rest)
  then have "get (bdiv d r b) 0 c = get (?G 0 r) 0 c"
    by (simp only: get_def)
  with val show ?thesis by simp
qed

lemma bmod_first_entry:
  fixes row col inner :: "('a :: field) tile"
  assumes sq: "square b inner" and b: "0 < b"
    and one: "get row 0 0 = 1" and zero: "\<And>k. 0 < k \<Longrightarrow> k < b \<Longrightarrow> get row 0 k = 0"
    and same: "get col 0 0 = get inner 0 0"
  shows "get (bmod row col inner b) 0 0 = 0"
proof -
  let ?step = "\<lambda>i j (k::nat) (inner :: 'a tile).
      put inner i j (get inner i j - get row i k * get col k j)"
  let ?H = "\<lambda>i j. for_loop 0 b (?step i j)"
  let ?G = "\<lambda>i. for_loop 0 b (?H i)"
  have split: "bmod row col inner b = for_loop (Suc 0) b ?G (?G 0 inner)"
    unfolding bmod_def by (rule for_loop_first [OF b])
  have split0: "?G 0 inner = for_loop (Suc 0) b (?H 0) (?H 0 0 inner)"
    by (rule for_loop_first [OF b])
  have keep: "get (?H i j t) 0 0 = get t 0 0" if "i \<noteq> 0 \<or> j \<noteq> 0" for i j and t :: "'a tile"
    by (rule for_loop_keeps [where h = "\<lambda>t. get t 0 0"]) (rule get_put_first [OF that])
  have rows: "get (for_loop (Suc 0) b ?G x) 0 0 = get x 0 0" for x :: "'a tile"
  proof (rule for_loop_keeps [where h = "\<lambda>t. get t 0 0"])
    fix i and t :: "'a tile" assume "Suc 0 \<le> i"
    then have i: "i \<noteq> 0" by simp
    show "get (?G i t) 0 0 = get t 0 0"
      by (rule for_loop_keeps [where h = "\<lambda>t. get t 0 0"]) (simp add: keep i)
  qed
  have cols: "get (for_loop (Suc 0) b (?H 0) x) 0 0 = get x 0 0" for x :: "'a tile"
    by (rule for_loop_keeps [where h = "\<lambda>t. get t 0 0"]) (simp add: keep)
  let ?J = "\<lambda>k (t :: 'a tile). square b t \<and> get t 0 0 = (if k = 0 then get inner 0 0 else 0)"
  have "?J b (?H 0 0 inner)"
  proof (rule for_loop_rule [where J = ?J])
    show "?J 0 inner" using sq by simp
  next
    fix k and t :: "'a tile" assume k: "k < b" and J: "?J k t"
    then have sqt: "square b t" by simp
    from J k one zero [of k] same show "?J (Suc k) (?step 0 0 k t)"
      by (auto simp: get_put [OF sqt b b] square_put)
  qed simp
  with b have "get (?H 0 0 inner) 0 0 = 0" by simp
  then show ?thesis
    by (simp add: split split0 rows cols)
qed

lemma square_tile_from: "square b (tile_from b v)"
  by (simp add: square_def tile_from_def)

lemma first_pass_pivot:
  fixes A :: "('a :: field) tile"
  assumes sq: "square b A" and b: "0 < b" and nz: "get A 0 0 \<noteq> 0"
  shows "get (bmod (bdiv (lu0 A b) A b) (fwd (lu0 A b) A b) A b) 0 0 = 0"
proof (rule bmod_first_entry [OF sq b])
  have row: "get (lu0 A b) 0 c = get A 0 c" for c
    by (simp add: get_def lu0_first_row)
  show "get (bdiv (lu0 A b) A b) 0 0 = 1"
    using bdiv_first_row [OF sq b nz row b] by simp
  show "get (bdiv (lu0 A b) A b) 0 k = 0" if "0 < k" "k < b" for k
    using bdiv_first_row [OF sq b nz row that(2)] that(1) by simp
  show "get (fwd (lu0 A b) A b) 0 0 = get A 0 0"
    by (simp add: get_def fwd_first_row)
qed


text \<open>
  Pass 0 of \<open>sparselu_par_call\<close> writes slot \<open>(1, 1)\<close> once, in the \<open>bmod\<close> task of
  row 1 and column 1, from the tiles that \<open>bdiv\<close> and \<open>fwd\<close> left in slots \<open>(1, 0)\<close>
  and \<open>(0, 1)\<close>.
\<close>

lemma fill_in_succeeds:
  "fill_in (\<lambda>c. True) b who i j s =
     Inr (s\<lparr>grid := set_slot (grid s) i j (Some (replicate b (replicate b 0))),
            mallocs := Suc (mallocs s + b), trace := trace s @ [Alloc who i j]\<rparr>)"
  by (simp add: fill_in_def allocate_clean_block_eq)

lemma par_pass_first_slot:
  fixes s :: "('a :: {zero,minus,times,inverse}) state"
  assumes n: "2 \<le> n"
    and s: "grid s 0 0 = Some D" "grid s 0 1 = Some C" "grid s 1 0 = Some R" "grid s 1 1 = Some I"
  shows "case sparselu_par_call_pass (\<lambda>c. True) n b 0 s of
           Inl e \<Rightarrow> False
         | Inr s' \<Rightarrow> grid s' 1 1 = Some (bmod (bdiv (lu0 D b) R b) (fwd (lu0 D b) C b) I b)"
proof -
  let ?E = "\<lambda>e :: error. False"
  let ?L = "lu0 D b"
  let ?C = "fwd ?L C b"
  let ?R = "bdiv ?L R b"
  let ?Z = "bmod ?R ?C I b"
  let ?fwd = "\<lambda>jj (t :: 'a state).
       if grid t 0 jj \<noteq> None then fwd_call b 0 jj (submit FWD 0 0 jj t) else Inr t"
  let ?bdiv = "\<lambda>ii (t :: 'a state).
       if grid t ii 0 \<noteq> None then bdiv_call b 0 ii (submit BDIV 0 ii 0 t) else Inr t"
  let ?bmod = "\<lambda>ii jj (t :: 'a state). if grid t 0 jj \<noteq> None
       then bindE (if grid t ii jj = None then fill_in (\<lambda>c. True) b Issuing_thread ii jj t else Inr t)
              (\<lambda>t. bmod_call b 0 ii jj (submit BMOD 0 ii jj t))
       else Inr t"
  let ?rows = "\<lambda>ii (t :: 'a state).
       if grid t ii 0 \<noteq> None then for_loopE (0 + 1) n (?bmod ii) t else Inr t"
  let ?Jf = "\<lambda>(j::nat) (t :: 'a state). grid t 0 0 = Some ?L \<and> grid t 1 0 = Some R
       \<and> grid t 1 1 = Some I \<and> grid t 0 1 = Some (if 1 < j then ?C else C)"
  let ?Jb = "\<lambda>(i::nat) (t :: 'a state). grid t 0 0 = Some ?L \<and> grid t 0 1 = Some ?C
       \<and> grid t 1 1 = Some I \<and> grid t 1 0 = Some (if 1 < i then ?R else R)"
  let ?Ji = "\<lambda>(i::nat) (j::nat) (t :: 'a state). grid t i 0 \<noteq> None \<and> grid t 0 1 = Some ?C
       \<and> grid t 1 0 = Some ?R
       \<and> grid t 1 1 = Some (if 1 < i \<or> (i = 1 \<and> 1 < j) then ?Z else I)"
  let ?Jr = "\<lambda>(i::nat) (t :: 'a state). grid t 0 1 = Some ?C \<and> grid t 1 0 = Some ?R
       \<and> grid t 1 1 = Some (if 1 < i then ?Z else I)"
  have lu: "case lu0_call b 0 (submit LU0 0 0 0 s) of Inl e \<Rightarrow> ?E e | Inr t \<Rightarrow> ?Jf (0 + 1) t"
    using s by (simp add: lu0_call_def set_slot_def)
  have fwd: "case for_loopE (0 + 1) n ?fwd t of Inl e \<Rightarrow> ?E e | Inr t' \<Rightarrow> ?Jf n t'"
    if "?Jf (0 + 1) t" for t :: "'a state"
  proof (rule for_loopE_rule [where J = ?Jf and E = ?E])
    fix j and u :: "'a state" assume j: "0 + 1 \<le> j" and J: "?Jf j u"
    then show "case ?fwd j u of Inl e \<Rightarrow> ?E e | Inr t' \<Rightarrow> ?Jf (Suc j) t'"
      by (auto simp: fwd_call_def set_slot_def split: option.splits)
  qed (use n that in simp_all)
  have bdiv: "case for_loopE (0 + 1) n ?bdiv t of Inl e \<Rightarrow> ?E e | Inr t' \<Rightarrow> ?Jb n t'"
    if "?Jb (0 + 1) t" for t :: "'a state"
  proof (rule for_loopE_rule [where J = ?Jb and E = ?E])
    fix i and u :: "'a state" assume i: "0 + 1 \<le> i" and J: "?Jb i u"
    then show "case ?bdiv i u of Inl e \<Rightarrow> ?E e | Inr t' \<Rightarrow> ?Jb (Suc i) t'"
      by (auto simp: bdiv_call_def set_slot_def split: option.splits)
  qed (use n that in simp_all)
  have inner: "case for_loopE (0 + 1) n (?bmod i) t of Inl e \<Rightarrow> ?E e | Inr t' \<Rightarrow> ?Ji i n t'"
    if i: "0 + 1 \<le> i" and J: "?Ji i (0 + 1) t" for i and t :: "'a state"
  proof (rule for_loopE_rule [where J = "?Ji i" and E = ?E])
    fix j and u :: "'a state" assume j: "0 + 1 \<le> j" and Ju: "?Ji i j u"
    from Ju obtain row where row: "grid u i 0 = Some row" by auto
    show "case ?bmod i j u of Inl e \<Rightarrow> ?E e | Inr t' \<Rightarrow> ?Ji i (Suc j) t'"
    proof (cases "grid u 0 j")
      case None
      with Ju j show ?thesis by (auto simp: less_Suc_eq)
    next
      case (Some col)
      show ?thesis
      proof (cases "grid u i j")
        case None
        with Some row Ju i j show ?thesis
          by (auto simp: fill_in_succeeds bmod_call_def set_slot_def submit_def)
      next
        case inner: (Some x)
        with Some row Ju i j show ?thesis
          by (auto simp: bmod_call_def set_slot_def)
      qed
    qed
  qed (use n J in simp_all)
  have rows: "case for_loopE (0 + 1) n ?rows t of Inl e \<Rightarrow> ?E e | Inr t' \<Rightarrow> ?Jr n t'"
    if "?Jr (0 + 1) t" for t :: "'a state"
  proof (rule for_loopE_rule [where J = ?Jr and E = ?E])
    fix i and u :: "'a state" assume i: "0 + 1 \<le> i" and J: "?Jr i u"
    show "case ?rows i u of Inl e \<Rightarrow> ?E e | Inr t' \<Rightarrow> ?Jr (Suc i) t'"
    proof (cases "grid u i 0 \<noteq> None")
      case True
      with J have "?Ji i (0 + 1) u" by simp
      from inner [OF i this] True n i show ?thesis
        by (auto split: sum.splits)
    next
      case False
      with J i show ?thesis by (auto simp: less_Suc_eq)
    qed
  qed (use n that in simp_all)
  have "case sparselu_par_call_pass (\<lambda>c. True) n b 0 s of Inl e \<Rightarrow> ?E e | Inr s' \<Rightarrow> ?Jr n s'"
    unfolding sparselu_par_call_pass_def
  proof (rule bindE_cases [OF lu])
    fix s1 :: "'a state" assume J1: "?Jf (0 + 1) s1"
    show "case bindE (for_loopE (0 + 1) n ?fwd s1)
                 (\<lambda>s. bindE (for_loopE (0 + 1) n ?bdiv s) (for_loopE (0 + 1) n ?rows)) of
            Inl e \<Rightarrow> ?E e | Inr s' \<Rightarrow> ?Jr n s'"
    proof (rule bindE_cases [OF fwd [OF J1]])
      fix s2 :: "'a state" assume "?Jf n s2"
      with n have J2: "?Jb (0 + 1) s2" by simp
      show "case bindE (for_loopE (0 + 1) n ?bdiv s2) (for_loopE (0 + 1) n ?rows) of
              Inl e \<Rightarrow> ?E e | Inr s' \<Rightarrow> ?Jr n s'"
      proof (rule bindE_cases [OF bdiv [OF J2]])
        fix s3 :: "'a state" assume "?Jb n s3"
        with n have "?Jr (0 + 1) s3" by simp
        then show "case for_loopE (0 + 1) n ?rows s3 of Inl e \<Rightarrow> ?E e | Inr s' \<Rightarrow> ?Jr n s'"
          by (rule rows)
      qed
    qed
  qed
  with n show ?thesis by (auto split: sum.splits)
qed

text \<open>
  C1. With the sizes of \<open>main\<close>, 16 and 8, the run does not meet the claim.
  Every tile that \<open>sparselu_init\<close> stores is the same tile \<open>A\<close> (C4,
  \<open>sparselu_init_values\<close>), among them the tiles of slots \<open>(0, 0)\<close>, \<open>(0, 1)\<close>,
  \<open>(1, 0)\<close> and \<open>(1, 1)\<close>. In pass 0, \<open>lu0\<close> and \<open>fwd\<close> leave row 0 of their tiles,
  \<open>bdiv\<close> turns row 0 of slot \<open>(1, 0)\<close> into \<open>(1, 0, ..., 0)\<close>, and \<open>bmod\<close> stores
  \<open>a - 1 * a = 0\<close> in entry \<open>[0][0]\<close> of slot \<open>(1, 1)\<close>, where \<open>a\<close> is the first entry
  of \<open>A\<close>. Pass 1 starts with \<open>lu0\<close> on that tile, whose first statement divides
  \<open>diag[1][0]\<close> by the pivot \<open>diag[0][0]\<close>, which is zero. This holds of
  \<open>sparselu_par_call\<close> and of \<open>sparselu_seq_call\<close>.

  The steps that make the pivot zero are exact in binary32 as well: \<open>a / a = 1\<close>
  and \<open>a - 1 * a = 0\<close> for the nonzero \<open>a\<close>, and a zero divided by a nonzero pivot
  or multiplied by a finite number stays zero. There the quotient by the zero
  pivot is infinite or not a number; here, in the rationals, it is a number, so
  the entries that the model computes after this point are not those of the
  program.
\<close>

theorem second_pass_divides_by_zero:
  "\<exists>s0 s1 t1 Z. sparselu_init (\<lambda>c. True) 16 8 0 = Inr s0
      \<and> grid s0 0 0 = Some (tile_from 8 1325) \<and> grid s0 0 1 = Some (tile_from 8 1325)
      \<and> grid s0 1 0 = Some (tile_from 8 1325) \<and> grid s0 1 1 = Some (tile_from 8 1325)
      \<and> sparselu_par_call_pass (\<lambda>c. True) 16 8 0 s0 = Inr s1
      \<and> sparselu_par_call (\<lambda>c. True) 16 8 s0
          = for_loopE 1 16 (sparselu_par_call_pass (\<lambda>c. True) 16 8) s1
      \<and> sparselu_seq_call_pass (\<lambda>c. True) 16 8 0 s0 = Inr t1
      \<and> sparselu_seq_call (\<lambda>c. True) 16 8 s0
          = for_loopE 1 16 (sparselu_seq_call_pass (\<lambda>c. True) 16 8) t1
      \<and> grid s1 1 1 = Some Z \<and> grid t1 1 1 = Some Z \<and> get Z 0 0 = 0"
proof -
  let ?A = "tile_from 8 1325"
  let ?Z = "bmod (bdiv (lu0 ?A 8) ?A 8) (fwd (lu0 ?A 8) ?A 8) ?A 8"
  obtain s0 where s0: "sparselu_init (\<lambda>c. True) 16 8 0 = Inr s0"
    using sparselu_init_returns by blast
  have ne: "\<not> null_entry 0 0" "\<not> null_entry 0 1" "\<not> null_entry 1 0" "\<not> null_entry 1 1"
    by (simp_all add: null_entry_iff)
  from sparselu_init_values [OF s0] ne
  have A: "grid s0 0 0 = Some ?A" "grid s0 0 1 = Some ?A" "grid s0 1 0 = Some ?A"
    "grid s0 1 1 = Some ?A"
    by simp_all
  from par_pass_first_slot [OF _ A, where n = 16 and b = 8]
  obtain s1 where s1: "sparselu_par_call_pass (\<lambda>c. True) 16 8 0 s0 = Inr s1"
    and Z1: "grid s1 1 1 = Some ?Z"
    by (cases "sparselu_par_call_pass (\<lambda>c. True) 16 8 0 s0") simp_all
  have "same_matrix 16 s0 s0"
    using sparselu_init_diagonal [OF s0] by (simp add: same_matrix_def)
  from par_seq_pass_rel [OF _ this, where k = 0 and ok = "\<lambda>c. True" and b = 8] s1
  obtain t1 where t1: "sparselu_seq_call_pass (\<lambda>c. True) 16 8 0 s0 = Inr t1"
    and same: "same_matrix 16 s1 t1"
    by (cases "sparselu_seq_call_pass (\<lambda>c. True) 16 8 0 s0") simp_all
  from same Z1 have Z2: "grid t1 1 1 = Some ?Z"
    by (simp add: same_matrix_def)
  have par: "sparselu_par_call (\<lambda>c. True) 16 8 s0
      = for_loopE 1 16 (sparselu_par_call_pass (\<lambda>c. True) 16 8) s1"
    using s1 by (simp add: sparselu_par_call_def for_loopE_step [of 0])
  have seq: "sparselu_seq_call (\<lambda>c. True) 16 8 s0
      = for_loopE 1 16 (sparselu_seq_call_pass (\<lambda>c. True) 16 8) t1"
    using t1 by (simp add: sparselu_seq_call_def for_loopE_step [of 0])
  have "get ?A 0 0 = - (20911 / 16384)"
    by (simp add: first_entry draw_65 tile_value_def)
  then have "get ?A 0 0 \<noteq> 0" by simp
  with square_tile_from have "get ?Z 0 0 = 0"
    by (intro first_pass_pivot) simp_all
  with s0 A s1 par t1 seq Z1 Z2 show ?thesis by blast
qed

end
